theory Spec2Isabelle
  imports Complex_Main "HOL-Library.Word" "HOL-Library.Monad_Syntax" "HOL-Library.Log_Nat"
begin

unbundle bit_operations_syntax

section \<open>Caller-owned buffers\<close>

text \<open>
  Every function of \<^verbatim>\<open>ndts.c\<close> works on buffers the caller owns: a pointer and,
  separately, a length. A buffer is modelled as the list of its cells; the length
  arguments (\<^verbatim>\<open>n\<close>, \<^verbatim>\<open>range\<close>, \<^verbatim>\<open>buffer_len\<close>, \<^verbatim>\<open>max_count\<close>) stay arguments
  of their own, as in the C signatures. C does not check an index: an access outside
  the buffer, a shift by a count outside \<open>0..63\<close>, a signed overflow and a cast of a
  double that does not fit are undefined behaviour. The model makes each of them the
  value \<open>None\<close>, so a result \<open>Some r\<close> means: the C function has defined behaviour on
  that input and leaves \<open>r\<close>.

  \<^item> \<^verbatim>\<open>size_t\<close> is \<open>nat\<close> (no buffer has \<open>2^64\<close> cells; the one \<^verbatim>\<open>size_t\<close>
    addition that can wrap, \<^verbatim>\<open>(size_t)(max - min) + 1\<close>, is written out modulo \<open>2^64\<close>);
  \<^item> \<^verbatim>\<open>int32_t\<close> is \<open>32 word\<close>, read with \<open>sint\<close>; \<^verbatim>\<open>uint8_t\<close> is \<open>8 word\<close>,
    \<^verbatim>\<open>uint64_t\<close> is \<open>64 word\<close>; the \<^verbatim>\<open>int\<close> locals of the codec are \<open>int\<close>;
  \<^item> in the codec a \<^verbatim>\<open>double\<close> is its IEEE-754 bit pattern, a \<open>64 word\<close>: the
    codec only looks at \<^verbatim>\<open>double_to_bits\<close> of a value, which is a bijection between
    doubles and bit patterns (NaN payloads, infinities and signed zeros included);
  \<^item> in the sorter and the boundary locator a timestamp is a finite double, modelled by
    the real number it denotes. On finite doubles \<^verbatim>\<open><\<close>, \<^verbatim>\<open>></\<close> and \<^verbatim>\<open>!=\<close> are the
    order and the inequality of these reals. The subtraction \<^verbatim>\<open>data[i] - min_val\<close> is the
    binary64 one: the exact difference rounded to the nearest double, ties to even
    (\<open>sub_f64\<close> below);
  \<^item> gather only copies cells, so its columns are lists over any type.
\<close>

type_synonym u8 = "8 word"
type_synonym u64 = "64 word"
type_synonym i32 = "32 word"

definition rd :: "'a list \<Rightarrow> nat \<Rightarrow> 'a option" where
  "rd xs i = (if i < length xs then Some (xs ! i) else None)"

definition wr :: "'a list \<Rightarrow> nat \<Rightarrow> 'a \<Rightarrow> 'a list option" where
  "wr xs i v = (if i < length xs then Some (xs[i := v]) else None)"

text \<open>An \<^verbatim>\<open>int32_t\<close> used as an index: a negative one is outside every buffer.\<close>

definition rd_at :: "'a list \<Rightarrow> i32 \<Rightarrow> 'a option" where
  "rd_at xs w = (if sint w < 0 then None else rd xs (nat (sint w)))"

definition wr_at :: "'a list \<Rightarrow> i32 \<Rightarrow> 'a \<Rightarrow> 'a list option" where
  "wr_at xs w v = (if sint w < 0 then None else wr xs (nat (sint w)) v)"

text \<open>Signed \<^verbatim>\<open>int32_t\<close> addition; an overflow is undefined.\<close>

definition add_i32 :: "i32 \<Rightarrow> i32 \<Rightarrow> i32 option" where
  "add_i32 a b =
     (if - (2 ^ 31) \<le> sint a + sint b \<and> sint a + sint b < 2 ^ 31 then Some (a + b) else None)"

definition sub_i32 :: "i32 \<Rightarrow> i32 \<Rightarrow> i32 option" where
  "sub_i32 a b =
     (if - (2 ^ 31) \<le> sint a - sint b \<and> sint a - sint b < 2 ^ 31 then Some (a - b) else None)"

text \<open>
  Binary64 arithmetic, in the default rounding mode and evaluated in double precision
  (as on x86-64 and AArch64). \<open>pow2 e\<close> is \<open>2^e\<close> and \<open>ilog2 x\<close>, for \<open>x > 0\<close>, the
  exponent \<open>e\<close> with \<open>2^e \<le> x < 2^(e+1)\<close>. The doubles of that binade are the multiples of
  \<open>2^(e-52)\<close>, and below \<open>2^(-1022)\<close> (the subnormal numbers) the multiples of
  \<open>2^(-1074)\<close>. \<open>round_f64 x\<close> is the double nearest to \<open>x\<close>, the one with the even
  significand when two are equally near; it is \<open>None\<close> when that rounding leaves the
  finite doubles (the result is an infinity). \<open>sub_f64\<close> is the subtraction of two
  finite doubles.
\<close>

definition pow2 :: "int \<Rightarrow> real" where
  "pow2 e = (if 0 \<le> e then of_int (2 ^ nat e) else 1 / of_int (2 ^ nat (- e)))"

definition ilog2 :: "real \<Rightarrow> int" where
  "ilog2 x = (if 1 \<le> x then bitlen \<lfloor>x\<rfloor> - 1 else - bitlen (\<lceil>1 / x\<rceil> - 1))"

definition round_even :: "real \<Rightarrow> int" where
  "round_even q =
     (if q - of_int \<lfloor>q\<rfloor> < 1 / 2 then \<lfloor>q\<rfloor>
      else if 1 / 2 < q - of_int \<lfloor>q\<rfloor> then \<lfloor>q\<rfloor> + 1
      else if even \<lfloor>q\<rfloor> then \<lfloor>q\<rfloor> else \<lfloor>q\<rfloor> + 1)"

definition ulp :: "real \<Rightarrow> real" where
  "ulp x = pow2 (max (ilog2 \<bar>x\<bar>) (- 1022) - 52)"

definition round_f64 :: "real \<Rightarrow> real option" where
  "round_f64 x =
     (if x = 0 then Some 0
      else if \<bar>of_int (round_even (x / ulp x)) * ulp x\<bar> < pow2 1024
        then Some (of_int (round_even (x / ulp x)) * ulp x)
      else None)"

definition sub_f64 :: "real \<Rightarrow> real \<Rightarrow> real option" where
  "sub_f64 x y = round_f64 (x - y)"

text \<open>
  \<^verbatim>\<open>(size_t)d\<close> for a double \<open>d\<close>: the fraction is discarded; undefined when the
  truncated value is not a \<^verbatim>\<open>size_t\<close> (and so for an infinity).
\<close>

definition to_size_t :: "real \<Rightarrow> nat option" where
  "to_size_t d = (if d \<le> - 1 \<or> 2 ^ 64 \<le> d then None else Some (nat \<lfloor>d\<rfloor>))"

text \<open>
  A \<^verbatim>\<open>for\<close> loop whose body neither changes the loop variable nor the bound runs the
  body over the list of the values the variable takes, stopping at the first undefined
  step: \<^verbatim>\<open>for (i = a; i < b; i++)\<close> over \<open>[a..<b]\<close>, and
  \<^verbatim>\<open>for (i = n; i > 0; i--)\<close> over \<open>rev [1..<Suc n]\<close>.
\<close>

fun for_each :: "'i list \<Rightarrow> ('i \<Rightarrow> 's \<Rightarrow> 's option) \<Rightarrow> 's \<Rightarrow> 's option" where
  "for_each [] body s = Some s"
| "for_each (i # is) body s = (case body i s of None \<Rightarrow> None | Some s' \<Rightarrow> for_each is body s')"

section \<open>Extent sorter\<close>

text \<open>
  \<^verbatim>\<open>counting_sort_argsort_f64\<close>: the size query. It returns \<^verbatim>\<open>*out_min\<close>,
  \<^verbatim>\<open>*out_max\<close>, the returned range and the buffer \<^verbatim>\<open>out_indices\<close> as the call leaves it.
\<close>

definition minmax_step :: "real list \<Rightarrow> nat \<Rightarrow> real \<times> real \<Rightarrow> (real \<times> real) option" where
  "minmax_step data i mm =
     (case mm of (min_val, max_val) \<Rightarrow>
        do {
          x \<leftarrow> rd data i;
          let min_val = (if x < min_val then x else min_val);
          let max_val = (if x > max_val then x else max_val);
          Some (min_val, max_val)
        })"

definition counting_sort_argsort_f64 ::
  "real list \<Rightarrow> nat \<Rightarrow> i32 list \<Rightarrow> (real \<times> real \<times> nat \<times> i32 list) option" where
  "counting_sort_argsort_f64 data n out_indices =
     (if n = 0 then Some (0, 0, 0, out_indices)
      else do {
        d0 \<leftarrow> rd data 0;
        (min_val, max_val) \<leftarrow> for_each [1..<n] (minmax_step data) (d0, d0);
        d \<leftarrow> sub_f64 max_val min_val;
        r \<leftarrow> to_size_t d;
        Some (min_val, max_val, (r + 1) mod 2 ^ 64, out_indices)
      })"

text \<open>
  \<^verbatim>\<open>counting_sort_apply\<close>: \<^verbatim>\<open>memset\<close>, histogram, prefix sums, and the placement pass
  from the last row to the first. It returns the buffers \<^verbatim>\<open>count\<close> and \<^verbatim>\<open>out_indices\<close>
  as the call leaves them.
\<close>

definition memset_zero :: "i32 list \<Rightarrow> nat \<Rightarrow> i32 list option" where
  "memset_zero count rng =
     (if rng \<le> length count then Some (replicate rng 0 @ drop rng count) else None)"

definition count_step :: "real list \<Rightarrow> real \<Rightarrow> nat \<Rightarrow> i32 list \<Rightarrow> i32 list option" where
  "count_step data min_val i count =
     do {
       x \<leftarrow> rd data i;
       d \<leftarrow> sub_f64 x min_val;
       bucket \<leftarrow> to_size_t d;
       c \<leftarrow> rd count bucket;
       c' \<leftarrow> add_i32 c 1;
       wr count bucket c'
     }"

definition accum_step :: "nat \<Rightarrow> i32 list \<Rightarrow> i32 list option" where
  "accum_step i count =
     do {
       a \<leftarrow> rd count i;
       b \<leftarrow> rd count (i - 1);
       c \<leftarrow> add_i32 a b;
       wr count i c
     }"

definition place_step ::
  "real list \<Rightarrow> real \<Rightarrow> nat \<Rightarrow> i32 list \<times> i32 list \<Rightarrow> (i32 list \<times> i32 list) option" where
  "place_step data min_val i s =
     (case s of (count, out_indices) \<Rightarrow>
        do {
          let idx = i - 1;
          x \<leftarrow> rd data idx;
          d \<leftarrow> sub_f64 x min_val;
          bucket \<leftarrow> to_size_t d;
          c \<leftarrow> rd count bucket;
          c' \<leftarrow> sub_i32 c 1;
          count' \<leftarrow> wr count bucket c';
          out' \<leftarrow> wr_at out_indices c' (word_of_nat idx);
          Some (count', out')
        })"

definition counting_sort_apply ::
  "real list \<Rightarrow> nat \<Rightarrow> real \<Rightarrow> i32 list \<Rightarrow> nat \<Rightarrow> i32 list \<Rightarrow> (i32 list \<times> i32 list) option" where
  "counting_sort_apply data n min_val count rng out_indices =
     do {
       count0 \<leftarrow> memset_zero count rng;
       count1 \<leftarrow> for_each [0..<n] (count_step data min_val) count0;
       count2 \<leftarrow> for_each [1..<rng] accum_step count1;
       for_each (rev [1..<Suc n]) (place_step data min_val) (count2, out_indices)
     }"

section \<open>Columnar reorder engine\<close>

text \<open>One assignment \<^verbatim>\<open>out[i] = src[indices[i]]\<close>.\<close>

definition gather_cell :: "'a list \<Rightarrow> i32 list \<Rightarrow> nat \<Rightarrow> 'a list \<Rightarrow> 'a list option" where
  "gather_cell src indices i out =
     do {
       idx \<leftarrow> rd indices i;
       x \<leftarrow> rd_at src idx;
       wr out i x
     }"

text \<open>The four-way unrolled loop \<^verbatim>\<open>for (; i + 4 <= n; i += 4)\<close>; it returns \<^verbatim>\<open>i\<close> too.\<close>

function gather_unrolled ::
  "'a list \<Rightarrow> i32 list \<Rightarrow> nat \<Rightarrow> nat \<Rightarrow> 'a list \<Rightarrow> (nat \<times> 'a list) option" where
  "gather_unrolled src indices n i out =
     (if i + 4 \<le> n then
        do {
          out \<leftarrow> gather_cell src indices i out;
          out \<leftarrow> gather_cell src indices (i + 1) out;
          out \<leftarrow> gather_cell src indices (i + 2) out;
          out \<leftarrow> gather_cell src indices (i + 3) out;
          gather_unrolled src indices n (i + 4) out
        }
      else Some (i, out))"
  by pat_completeness auto
termination
  by (relation "measure (\<lambda>(src, indices, n, i, out). n - i)") auto

declare gather_unrolled.simps [simp del]

text \<open>
  \<^verbatim>\<open>gather_f64\<close> and \<^verbatim>\<open>gather_i32\<close>: the unrolled loop, then the rest one by one.
  The cells of a \<^verbatim>\<open>double\<close> column are only copied, so their type is left open.
\<close>

definition gather_f64 :: "'a list \<Rightarrow> i32 list \<Rightarrow> nat \<Rightarrow> 'a list \<Rightarrow> 'a list option" where
  "gather_f64 src indices n out =
     do {
       (i, out) \<leftarrow> gather_unrolled src indices n 0 out;
       for_each [i..<n] (gather_cell src indices) out
     }"

definition gather_i32 :: "i32 list \<Rightarrow> i32 list \<Rightarrow> nat \<Rightarrow> i32 list \<Rightarrow> i32 list option" where
  "gather_i32 src indices n out =
     do {
       (i, out) \<leftarrow> gather_unrolled src indices n 0 out;
       for_each [i..<n] (gather_cell src indices) out
     }"

text \<open>\<^verbatim>\<open>gather_batch4\<close>: one pass, one read of \<^verbatim>\<open>indices[i]\<close> for the four columns.\<close>

definition batch4_step ::
  "'a list \<Rightarrow> i32 list \<Rightarrow> 'a list \<Rightarrow> i32 list \<Rightarrow> i32 list \<Rightarrow> nat \<Rightarrow>
   'a list \<times> i32 list \<times> 'a list \<times> i32 list \<Rightarrow> ('a list \<times> i32 list \<times> 'a list \<times> i32 list) option" where
  "batch4_step ts_src sym_src price_src vol_src indices i s =
     (case s of (ts_out, sym_out, price_out, vol_out) \<Rightarrow>
        do {
          idx \<leftarrow> rd indices i;
          t \<leftarrow> rd_at ts_src idx;
          ts_out \<leftarrow> wr ts_out i t;
          y \<leftarrow> rd_at sym_src idx;
          sym_out \<leftarrow> wr sym_out i y;
          p \<leftarrow> rd_at price_src idx;
          price_out \<leftarrow> wr price_out i p;
          v \<leftarrow> rd_at vol_src idx;
          vol_out \<leftarrow> wr vol_out i v;
          Some (ts_out, sym_out, price_out, vol_out)
        })"

definition gather_batch4 ::
  "'a list \<Rightarrow> i32 list \<Rightarrow> 'a list \<Rightarrow> i32 list \<Rightarrow> i32 list \<Rightarrow> nat \<Rightarrow>
   'a list \<Rightarrow> i32 list \<Rightarrow> 'a list \<Rightarrow> i32 list \<Rightarrow> ('a list \<times> i32 list \<times> 'a list \<times> i32 list) option" where
  "gather_batch4 ts_src sym_src price_src vol_src indices n ts_out sym_out price_out vol_out =
     for_each [0..<n] (batch4_step ts_src sym_src price_src vol_src indices)
       (ts_out, sym_out, price_out, vol_out)"

section \<open>Snapshot boundary locator\<close>

text \<open>
  \<^verbatim>\<open>find_snapshot_boundaries\<close> returns the snapshot count and the buffer \<^verbatim>\<open>out_starts\<close>
  as the call leaves it. The loop state is \<^verbatim>\<open>count\<close>, \<^verbatim>\<open>prev\<close> and the buffer.
\<close>

definition boundary_step ::
  "real list \<Rightarrow> nat \<Rightarrow> nat \<times> real \<times> i32 list \<Rightarrow> (nat \<times> real \<times> i32 list) option" where
  "boundary_step sorted_ts i s =
     (case s of (count, prev, out_starts) \<Rightarrow>
        do {
          x \<leftarrow> rd sorted_ts i;
          if x \<noteq> prev then
            do {
              out_starts \<leftarrow> wr out_starts count (word_of_nat i);
              Some (count + 1, x, out_starts)
            }
          else Some (count, prev, out_starts)
        })"

definition find_snapshot_boundaries :: "real list \<Rightarrow> nat \<Rightarrow> i32 list \<Rightarrow> (nat \<times> i32 list) option" where
  "find_snapshot_boundaries sorted_ts n out_starts =
     (if n = 0 then Some (0, out_starts)
      else do {
        out_starts \<leftarrow> wr out_starts 0 0;
        prev \<leftarrow> rd sorted_ts 0;
        (count, prev, out_starts) \<leftarrow> for_each [1..<n] (boundary_step sorted_ts) (1, prev, out_starts);
        out_starts \<leftarrow> wr out_starts count (word_of_nat n);
        Some (count, out_starts)
      })"

section \<open>Gorilla XOR codec\<close>

text \<open>
  \<^verbatim>\<open>clz64\<close> and \<^verbatim>\<open>ctz64\<close>: the number of zero bits above the highest, and below the
  lowest, set bit (what \<^verbatim>\<open>__builtin_clzll\<close> and \<^verbatim>\<open>__builtin_ctzll\<close> return), and 64
  for 0.
\<close>

definition clz64 :: "u64 \<Rightarrow> int" where
  "clz64 x = (if x = 0 then 64 else int (length (takeWhile (\<lambda>i. \<not> bit x i) (rev [0..<64]))))"

definition ctz64 :: "u64 \<Rightarrow> int" where
  "ctz64 x = (if x = 0 then 64 else int (length (takeWhile (\<lambda>i. \<not> bit x i) [0..<64])))"

text \<open>\<^verbatim>\<open>x >> s\<close> and \<^verbatim>\<open>x << s\<close> on \<^verbatim>\<open>uint64_t\<close> with an \<^verbatim>\<open>int\<close> count.\<close>

definition shr64 :: "u64 \<Rightarrow> int \<Rightarrow> u64 option" where
  "shr64 x s = (if 0 \<le> s \<and> s < 64 then Some (drop_bit (nat s) x) else None)"

definition shl64 :: "u64 \<Rightarrow> int \<Rightarrow> u64 option" where
  "shl64 x s = (if 0 \<le> s \<and> s < 64 then Some (push_bit (nat s) x) else None)"

subsection \<open>Encoder\<close>

text \<open>
  The bit writer's state is \<^verbatim>\<open>out_buffer\<close>, \<^verbatim>\<open>byte_pos\<close> and \<^verbatim>\<open>bit_pos\<close>. The macro
  \<^verbatim>\<open>WRITE_BIT(b)\<close> clears a byte when it starts it, sets bit \<^verbatim>\<open>7 - bit_pos\<close> when \<^verbatim>\<open>b\<close>
  is not 0, and advances.
\<close>

fun WRITE_BIT :: "bool \<Rightarrow> u8 list \<times> nat \<times> nat \<Rightarrow> (u8 list \<times> nat \<times> nat) option" where
  "WRITE_BIT b (out_buffer, byte_pos, bit_pos) =
     do {
       out_buffer \<leftarrow> (if bit_pos = 0 then wr out_buffer byte_pos 0 else Some out_buffer);
       out_buffer \<leftarrow>
         (if b then
            do {
              x \<leftarrow> rd out_buffer byte_pos;
              wr out_buffer byte_pos (x OR push_bit (7 - bit_pos) 1)
            }
          else Some out_buffer);
       let bit_pos = bit_pos + 1;
       Some (if bit_pos = 8 then (out_buffer, byte_pos + 1, 0) else (out_buffer, byte_pos, bit_pos))
     }"

declare WRITE_BIT.simps [simp del]

text \<open>
  \<^verbatim>\<open>WRITE_BITS(val, bits)\<close>: bit \<^verbatim>\<open>_i\<close> of the value for \<^verbatim>\<open>_i\<close> from \<^verbatim>\<open>bits - 1\<close> down
  to 0 (\<^verbatim>\<open>_v >> _i\<close> is undefined for \<^verbatim>\<open>_i\<close> above 63).
\<close>

definition WRITE_BITS :: "u64 \<Rightarrow> int \<Rightarrow> u8 list \<times> nat \<times> nat \<Rightarrow> (u8 list \<times> nat \<times> nat) option" where
  "WRITE_BITS val bits w =
     (if 64 < bits then None else for_each (rev [0..<nat bits]) (\<lambda>i. WRITE_BIT (bit val i)) w)"

text \<open>
  The body of the loop over \<^verbatim>\<open>data[1..n)\<close>. The state is the writer, \<^verbatim>\<open>prev_value\<close>,
  \<^verbatim>\<open>prev_leading\<close> and \<^verbatim>\<open>prev_trailing\<close>.
\<close>

fun encode_value ::
  "u64 \<Rightarrow> (u8 list \<times> nat \<times> nat) \<times> u64 \<times> int \<times> int \<Rightarrow> ((u8 list \<times> nat \<times> nat) \<times> u64 \<times> int \<times> int) option" where
  "encode_value curr_bits (w, prev_value, prev_leading, prev_trailing) =
     (let xor_val = curr_bits XOR prev_value in
      if xor_val = 0 then
        do {
          w \<leftarrow> WRITE_BIT False w;
          Some (w, curr_bits, prev_leading, prev_trailing)
        }
      else
        do {
          w \<leftarrow> WRITE_BIT True w;
          let leading = clz64 xor_val;
          let trailing = ctz64 xor_val;
          if prev_leading \<noteq> - 1 \<and> leading \<ge> prev_leading \<and> trailing \<ge> prev_trailing then
            do {
              w \<leftarrow> WRITE_BIT False w;
              let meaningful = 64 - prev_leading - prev_trailing;
              v \<leftarrow> shr64 xor_val prev_trailing;
              w \<leftarrow> WRITE_BITS v meaningful w;
              Some (w, curr_bits, prev_leading, prev_trailing)
            }
          else
            do {
              w \<leftarrow> WRITE_BIT True w;
              w \<leftarrow> WRITE_BITS (word_of_int leading) 6 w;
              let meaningful = 64 - leading - trailing;
              w \<leftarrow> WRITE_BITS (word_of_int meaningful) 6 w;
              v \<leftarrow> shr64 xor_val trailing;
              w \<leftarrow> WRITE_BITS v meaningful w;
              Some (w, curr_bits, leading, trailing)
            }
        })"

declare encode_value.simps [simp del]

definition encode_step ::
  "u64 list \<Rightarrow> nat \<Rightarrow> (u8 list \<times> nat \<times> nat) \<times> u64 \<times> int \<times> int \<Rightarrow>
   ((u8 list \<times> nat \<times> nat) \<times> u64 \<times> int \<times> int) option" where
  "encode_step data i s = do { curr_bits \<leftarrow> rd data i; encode_value curr_bits s }"

text \<open>
  \<^verbatim>\<open>gorilla_compress_f64\<close> returns the compressed length and the buffer as the call
  leaves it.
\<close>

definition gorilla_compress_f64 :: "u64 list \<Rightarrow> nat \<Rightarrow> u8 list \<Rightarrow> (nat \<times> u8 list) option" where
  "gorilla_compress_f64 data n out_buffer =
     (if n = 0 then Some (0, out_buffer)
      else do {
        first \<leftarrow> rd data 0;
        w \<leftarrow> WRITE_BITS first 64 (out_buffer, 0, 0);
        ((out_buffer, byte_pos, bit_pos), prev_value, prev_leading, prev_trailing) \<leftarrow>
          for_each [1..<n] (encode_step data) (w, first, - 1, 0);
        Some (if bit_pos > 0 then byte_pos + 1 else byte_pos, out_buffer)
      })"

subsection \<open>Decoder\<close>

text \<open>
  Reading has three outcomes: the macro \<^verbatim>\<open>READ_BIT()\<close> leaves the whole function
  with \<^verbatim>\<open>return count\<close> when the stream is exhausted (\<open>Exhausted\<close>); an access or a
  shift is undefined (\<open>Undefined\<close>); or a value is read (\<open>Got\<close>).
\<close>

datatype 'a reading = Undefined | Exhausted | Got 'a

fun then_read :: "'a reading \<Rightarrow> ('a \<Rightarrow> 'b reading) \<Rightarrow> 'b reading" where
  "then_read Undefined f = Undefined"
| "then_read Exhausted f = Exhausted"
| "then_read (Got x) f = f x"

fun READ_BIT :: "u8 list \<Rightarrow> nat \<Rightarrow> nat \<times> nat \<Rightarrow> (bool \<times> nat \<times> nat) reading" where
  "READ_BIT buffer buffer_len (byte_pos, bit_pos) =
     (if byte_pos \<ge> buffer_len then Exhausted
      else case rd buffer byte_pos of
        None \<Rightarrow> Undefined
      | Some x \<Rightarrow>
          (let b = bit x (7 - bit_pos); bit_pos = bit_pos + 1
           in Got (b, if bit_pos = 8 then (byte_pos + 1, 0) else (byte_pos, bit_pos))))"

declare READ_BIT.simps [simp del]

text \<open>\<^verbatim>\<open>READ_BITS(bits)\<close>: \<^verbatim>\<open>_v = (_v << 1) | READ_BIT()\<close>, \<^verbatim>\<open>bits\<close> times.\<close>

fun read_loop :: "u8 list \<Rightarrow> nat \<Rightarrow> nat \<Rightarrow> u64 \<Rightarrow> nat \<times> nat \<Rightarrow> (u64 \<times> nat \<times> nat) reading" where
  "read_loop buffer buffer_len 0 v cur = Got (v, cur)"
| "read_loop buffer buffer_len (Suc k) v cur =
     then_read (READ_BIT buffer buffer_len cur)
       (\<lambda>(b, cur). read_loop buffer buffer_len k (push_bit 1 v OR of_bool b) cur)"

definition READ_BITS :: "u8 list \<Rightarrow> nat \<Rightarrow> int \<Rightarrow> nat \<times> nat \<Rightarrow> (u64 \<times> nat \<times> nat) reading" where
  "READ_BITS buffer buffer_len bits cur = read_loop buffer buffer_len (nat bits) 0 cur"

text \<open>
  One turn of the \<^verbatim>\<open>while\<close> loop up to, and without, its closing
  \<^verbatim>\<open>out_data[count++] = bits_to_double(prev_value)\<close>, which the three branches share:
  it returns the reader's position, the new \<^verbatim>\<open>prev_value\<close>, \<^verbatim>\<open>prev_leading\<close> and
  \<^verbatim>\<open>prev_trailing\<close>.
\<close>

fun decode_value ::
  "u8 list \<Rightarrow> nat \<Rightarrow> (nat \<times> nat) \<times> u64 \<times> int \<times> int \<Rightarrow> ((nat \<times> nat) \<times> u64 \<times> int \<times> int) reading" where
  "decode_value buffer buffer_len (cur, prev_value, prev_leading, prev_trailing) =
     then_read (READ_BIT buffer buffer_len cur) (\<lambda>(same, cur).
       if \<not> same then Got (cur, prev_value, prev_leading, prev_trailing)
       else
         then_read (READ_BIT buffer buffer_len cur) (\<lambda>(use_prev, cur).
           then_read
             (if \<not> use_prev then Got (cur, 64 - prev_leading - prev_trailing, prev_leading, prev_trailing)
              else
                then_read (READ_BITS buffer buffer_len 6 cur) (\<lambda>(l, cur).
                  then_read (READ_BITS buffer buffer_len 6 cur) (\<lambda>(m, cur).
                    let leading = uint l; meaningful = uint m
                    in Got (cur, meaningful, leading, 64 - leading - meaningful))))
             (\<lambda>(cur, meaningful, prev_leading, prev_trailing).
               then_read (READ_BITS buffer buffer_len meaningful cur) (\<lambda>(v, cur).
                 case shl64 v prev_trailing of
                   None \<Rightarrow> Undefined
                 | Some xor_val \<Rightarrow> Got (cur, prev_value XOR xor_val, prev_leading, prev_trailing)))))"

declare decode_value.simps [simp del]

text \<open>
  The \<^verbatim>\<open>while\<close> loop. The state is the reader's position, \<^verbatim>\<open>count\<close>, \<^verbatim>\<open>prev_value\<close>,
  \<^verbatim>\<open>prev_leading\<close>, \<^verbatim>\<open>prev_trailing\<close> and \<^verbatim>\<open>out_data\<close>.
\<close>

function decode_loop ::
  "u8 list \<Rightarrow> nat \<Rightarrow> nat \<Rightarrow> (nat \<times> nat) \<times> nat \<times> u64 \<times> int \<times> int \<times> u64 list \<Rightarrow> (nat \<times> u64 list) option" where
  "decode_loop buffer buffer_len max_count (cur, count, prev_value, prev_leading, prev_trailing, out_data) =
     (if count < max_count \<and> fst cur < buffer_len then
        case decode_value buffer buffer_len (cur, prev_value, prev_leading, prev_trailing) of
          Undefined \<Rightarrow> None
        | Exhausted \<Rightarrow> Some (count, out_data)
        | Got (cur, prev_value, prev_leading, prev_trailing) \<Rightarrow>
            (case wr out_data count prev_value of
               None \<Rightarrow> None
             | Some out_data \<Rightarrow>
                 decode_loop buffer buffer_len max_count
                   (cur, count + 1, prev_value, prev_leading, prev_trailing, out_data))
      else Some (count, out_data))"
  by pat_completeness auto
termination
  by (relation "measure (\<lambda>(buffer, buffer_len, max_count, cur, count, rest). max_count - count)") auto

declare decode_loop.simps [simp del]

text \<open>
  \<^verbatim>\<open>gorilla_decompress_f64\<close> returns the count and the buffer \<^verbatim>\<open>out_data\<close> as the call
  leaves it.
\<close>

definition gorilla_decompress_f64 :: "u8 list \<Rightarrow> nat \<Rightarrow> u64 list \<Rightarrow> nat \<Rightarrow> (nat \<times> u64 list) option" where
  "gorilla_decompress_f64 buffer buffer_len out_data max_count =
     (if buffer_len < 8 then Some (0, out_data)
      else case READ_BITS buffer buffer_len 64 (0, 0) of
        Undefined \<Rightarrow> None
      | Exhausted \<Rightarrow> Some (0, out_data)
      | Got (prev_value, cur) \<Rightarrow>
          (case wr out_data 0 prev_value of
             None \<Rightarrow> None
           | Some out_data \<Rightarrow> decode_loop buffer buffer_len max_count (cur, 1, prev_value, - 1, 0, out_data)))"

section \<open>Auxiliary notions for the statements\<close>

text \<open>
  The bucket of row \<open>j\<close>: the counting array's index \<^verbatim>\<open>(size_t)(data[j] - min_val)\<close>.
  \<open>buckets_ok\<close> says that the \<open>n\<close> rows can be read and that each of these casts is
  defined and lands in \<open>[0, rng)\<close>.
\<close>

definition bucket_of :: "real list \<Rightarrow> real \<Rightarrow> nat \<Rightarrow> nat" where
  "bucket_of data min_val j =
     (case sub_f64 (data ! j) min_val of None \<Rightarrow> 0 | Some d \<Rightarrow> nat \<lfloor>d\<rfloor>)"

definition buckets_ok :: "real list \<Rightarrow> nat \<Rightarrow> real \<Rightarrow> nat \<Rightarrow> bool" where
  "buckets_ok data n min_val rng \<longleftrightarrow>
     n \<le> length data \<and>
     (\<forall>j<n. case sub_f64 (data ! j) min_val of
              None \<Rightarrow> False
            | Some d \<Rightarrow> - 1 < d \<and> d < 2 ^ 64 \<and> bucket_of data min_val j < rng)"

text \<open>
  For a key function \<open>k\<close> on rows: \<open>hist k i b\<close> counts the rows below \<open>i\<close> with key
  \<open>b\<close>, \<open>below k n b\<close> the rows below \<open>n\<close> with a key less than \<open>b\<close>, and
  \<open>slot k n j\<close> is the place of row \<open>j\<close> in the stable order by key: after all rows
  with a smaller key and after the earlier rows with the same key.
\<close>

definition hist :: "(nat \<Rightarrow> nat) \<Rightarrow> nat \<Rightarrow> nat \<Rightarrow> nat" where
  "hist k i b = length (filter (\<lambda>j. k j = b) [0..<i])"

definition below :: "(nat \<Rightarrow> nat) \<Rightarrow> nat \<Rightarrow> nat \<Rightarrow> nat" where
  "below k n b = length (filter (\<lambda>j. k j < b) [0..<n])"

definition slot :: "(nat \<Rightarrow> nat) \<Rightarrow> nat \<Rightarrow> nat \<Rightarrow> nat" where
  "slot k n j = below k n (k j) + hist k j (k j)"

text \<open>The first \<open>n\<close> cells of an index buffer hold each of \<open>0, \<dots>, n - 1\<close> once.\<close>

definition is_permutation :: "nat \<Rightarrow> i32 list \<Rightarrow> bool" where
  "is_permutation n out \<longleftrightarrow> sort (map sint (take n out)) = map int [0..<n]"

text \<open>
  The positions where a run of equal values starts among the first \<open>i\<close> rows: row 0,
  and every row that differs from the row before it.
\<close>

definition run_starts :: "real list \<Rightarrow> nat \<Rightarrow> nat list" where
  "run_starts ts i = filter (\<lambda>j. j = 0 \<or> ts ! j \<noteq> ts ! (j - 1)) [0..<i]"

text \<open>
  A reading of a truncated stream against the reading of the whole stream at the same
  position: the truncated one either runs out of bytes or does what the whole one does.
\<close>

definition cut_short :: "'a reading \<Rightarrow> 'a reading \<Rightarrow> bool" where
  "cut_short r r' \<longleftrightarrow> r = Exhausted \<or> r = r'"

text \<open>
  The bit stream of a byte buffer, most significant bit of each byte first: \<open>sbit buf p\<close>
  is bit \<open>p\<close> of the stream, and \<open>cur_of p\<close> is the pair \<^verbatim>\<open>(byte_pos, bit_pos)\<close> that
  stands at bit \<open>p\<close>. \<open>msb_bits m v\<close> are the low \<open>m\<close> bits of \<open>v\<close>, highest first: what
  \<^verbatim>\<open>WRITE_BITS(v, m)\<close> emits.
\<close>

definition sbit :: "u8 list \<Rightarrow> nat \<Rightarrow> bool" where
  "sbit buf p = bit (buf ! (p div 8)) (7 - p mod 8)"

definition cur_of :: "nat \<Rightarrow> nat \<times> nat" where
  "cur_of p = (p div 8, p mod 8)"

definition msb_bits :: "nat \<Rightarrow> u64 \<Rightarrow> bool list" where
  "msb_bits m v = map (bit v) (rev [0..<m])"

text \<open>
  The bits the encoder emits for one value after the first, given \<^verbatim>\<open>prev_value\<close>,
  \<^verbatim>\<open>prev_leading\<close> and \<^verbatim>\<open>prev_trailing\<close>, and the block descriptor it remembers
  afterwards; \<open>tail_bits\<close> strings them together for the values after the first.
\<close>

definition reuses :: "u64 \<Rightarrow> int \<times> int \<Rightarrow> bool" where
  "reuses x d = (case d of (pl, pt) \<Rightarrow> pl \<noteq> - 1 \<and> pl \<le> clz64 x \<and> pt \<le> ctz64 x)"

definition value_bits :: "u64 \<Rightarrow> u64 \<Rightarrow> int \<times> int \<Rightarrow> bool list" where
  "value_bits v pv d =
     (let x = v XOR pv in
      if x = 0 then [False]
      else if reuses x d then
        [True, False] @ msb_bits (nat (64 - fst d - snd d)) (drop_bit (nat (snd d)) x)
      else
        [True, True] @ msb_bits 6 (word_of_int (clz64 x)) @
        msb_bits 6 (word_of_int (64 - clz64 x - ctz64 x)) @
        msb_bits (nat (64 - clz64 x - ctz64 x)) (drop_bit (nat (ctz64 x)) x))"

definition next_block :: "u64 \<Rightarrow> u64 \<Rightarrow> int \<times> int \<Rightarrow> int \<times> int" where
  "next_block v pv d =
     (let x = v XOR pv in if x = 0 \<or> reuses x d then d else (clz64 x, ctz64 x))"

fun tail_bits :: "u64 list \<Rightarrow> u64 \<Rightarrow> int \<times> int \<Rightarrow> bool list" where
  "tail_bits [] pv d = []"
| "tail_bits (v # vs) pv d = value_bits v pv d @ tail_bits vs v (next_block v pv d)"

text \<open>
  A sequence is free of full windows when no two consecutive values differ in both the
  top bit (the sign) and the bottom bit (the last bit of the mantissa).
\<close>

fun no_full_window :: "u64 \<Rightarrow> u64 list \<Rightarrow> bool" where
  "no_full_window pv [] = True"
| "no_full_window pv (v # vs) = (\<not> (bit (v XOR pv) 63 \<and> bit (v XOR pv) 0) \<and> no_full_window v vs)"

text \<open>
  Two invariants of the encoder. \<open>tail_clear buf p\<close>: in the byte that bit \<open>p\<close> has
  begun, the bits from \<open>p\<close> on are still 0 (what \<^verbatim>\<open>WRITE_BIT\<close> relies on when it writes a
  0 bit by doing nothing). \<open>block_ok\<close>: the remembered descriptor is the initial
  \<open>(-1, 0)\<close> or a window inside the 64 bits.
\<close>

definition tail_clear :: "u8 list \<Rightarrow> nat \<Rightarrow> bool" where
  "tail_clear buf p \<longleftrightarrow>
     (\<forall>q. p mod 8 \<noteq> 0 \<and> q div 8 = p div 8 \<and> p \<le> q \<longrightarrow> \<not> sbit buf q)"

definition block_ok :: "int \<times> int \<Rightarrow> bool" where
  "block_ok d \<longleftrightarrow> (case d of (pl, pt) \<Rightarrow> (pl = - 1 \<and> pt = 0) \<or> (0 \<le> pl \<and> 0 \<le> pt \<and> pl + pt \<le> 63))"

lemma for_each_append:
  "for_each (xs @ ys) body s = (case for_each xs body s of None \<Rightarrow> None | Some s' \<Rightarrow> for_each ys body s')"
  by (induction xs arbitrary: s) (auto split: option.splits)

lemma for_each_upt_rule:
  assumes "I a s" and "a \<le> b"
    and "\<And>i s. a \<le> i \<Longrightarrow> i < b \<Longrightarrow> I i s \<Longrightarrow> \<exists>s'. body i s = Some s' \<and> I (Suc i) s'"
  shows "\<exists>s'. for_each [a..<b] body s = Some s' \<and> I b s'"
  using assms(2,3)
proof (induction b)
  case 0
  then show ?case using assms(1) by simp
next
  case (Suc b)
  show ?case
  proof (cases "a = Suc b")
    case True
    then show ?thesis using assms(1) by simp
  next
    case False
    with Suc.prems have ab: "a \<le> b" by simp
    from Suc.IH [OF ab] Suc.prems(2) obtain s1 where
      s1: "for_each [a..<b] body s = Some s1" "I b s1" by force
    from Suc.prems(2) [of b s1] ab s1 obtain s2 where
      s2: "body b s1 = Some s2" "I (Suc b) s2" by auto
    from ab have "[a..<Suc b] = [a..<b] @ [b]" by simp
    then show ?thesis using s1 s2 by (simp add: for_each_append)
  qed
qed

lemma for_each_down_rule:
  assumes "I n s"
    and "\<And>i s. 0 < i \<Longrightarrow> i \<le> n \<Longrightarrow> I i s \<Longrightarrow> \<exists>s'. body i s = Some s' \<and> I (i - 1) s'"
  shows "\<exists>s'. for_each (rev [1..<Suc n]) body s = Some s' \<and> I 0 s'"
  using assms
proof (induction n arbitrary: s)
  case 0
  then show ?case by simp
next
  case (Suc n)
  from Suc.prems(2) [of "Suc n" s] Suc.prems(1) obtain s1 where
    s1: "body (Suc n) s = Some s1" "I n s1" by auto
  have "\<exists>s'. for_each (rev [1..<Suc n]) body s1 = Some s' \<and> I 0 s'"
    by (rule Suc.IH [OF s1(2)]) (use Suc.prems(2) in auto)
  then show ?case using s1 by simp
qed

lemma hist_0: "hist k 0 b = 0"
  by (simp add: hist_def)

lemma hist_Suc: "hist k (Suc i) b = hist k i b + (if k i = b then 1 else 0)"
  by (simp add: hist_def)

lemma hist_mono: "i \<le> i' \<Longrightarrow> hist k i b \<le> hist k i' b"
  by (induction i' ) (auto simp: hist_Suc le_Suc_eq)

lemma hist_less: "j < n \<Longrightarrow> hist k j (k j) < hist k n (k j)"
  using hist_mono [of "Suc j" n k "k j"] by (simp add: hist_Suc)

lemma below_0: "below k n 0 = 0"
  by (simp add: below_def)

lemma below_Suc: "below k n (Suc b) = below k n b + hist k n b"
  unfolding below_def hist_def
  by (induction n) (auto simp: less_Suc_eq)

lemma below_mono: "b \<le> b' \<Longrightarrow> below k n b \<le> below k n b'"
  by (induction b') (auto simp: below_Suc le_Suc_eq)

lemma below_hist_le: "below k n b + hist k n b \<le> n"
proof -
  have "below k n (Suc b) \<le> length [0..<n]"
    unfolding below_def by (rule length_filter_le)
  then show ?thesis by (simp add: below_Suc)
qed

lemma slot_less_next: "j < n \<Longrightarrow> slot k n j < below k n (Suc (k j))"
  by (simp add: slot_def below_Suc hist_less)

lemma slot_less: "j < n \<Longrightarrow> slot k n j < n"
  using slot_less_next [of j n k] below_hist_le [of k n "k j"] by (simp add: below_Suc)

lemma slot_order:
  assumes "j < n" "j' < n"
    and "k j < k j' \<or> (k j = k j' \<and> j < j')"
  shows "slot k n j < slot k n j'"
proof -
  from assms(3) show ?thesis
  proof
    assume lt: "k j < k j'"
    have "slot k n j < below k n (Suc (k j))" by (rule slot_less_next [OF assms(1)])
    also have "\<dots> \<le> below k n (k j')" using lt by (intro below_mono) simp
    also have "\<dots> \<le> slot k n j'" by (simp add: slot_def)
    finally show ?thesis .
  next
    assume eq: "k j = k j' \<and> j < j'"
    then have "hist k j (k j) < hist k j' (k j)" by (intro hist_less) simp
    with eq show ?thesis by (simp add: slot_def)
  qed
qed

lemma slot_inj:
  assumes "j < n" "j' < n" "slot k n j = slot k n j'"
  shows "j = j'"
proof (rule ccontr)
  assume ne: "j \<noteq> j'"
  have "k j < k j' \<or> (k j = k j' \<and> j < j') \<or> k j' < k j \<or> (k j' = k j \<and> j' < j)"
    using ne by auto
  then have "slot k n j < slot k n j' \<or> slot k n j' < slot k n j"
    using slot_order [OF assms(1,2)] slot_order [OF assms(2,1)] by blast
  with assms(3) show False by simp
qed

lemma slot_surj:
  assumes "p < n"
  shows "\<exists>j<n. slot k n j = p"
proof -
  have inj: "inj_on (slot k n) {..<n}"
    by (rule inj_onI) (auto dest: slot_inj)
  have sub: "slot k n ` {..<n} \<subseteq> {..<n}"
    by (auto simp: slot_less)
  have "card (slot k n ` {..<n}) = card {..<n}"
    by (rule card_image [OF inj])
  then have "slot k n ` {..<n} = {..<n}"
    using sub by (intro card_subset_eq) auto
  with assms have "p \<in> slot k n ` {..<n}" by simp
  then show ?thesis by auto
qed

lemma sint_of_nat_i32: "m < 2 ^ 31 \<Longrightarrow> sint (word_of_nat m :: i32) = int m"
  by (simp add: signed_of_nat signed_take_bit_int_eq_self)

section \<open>Binary64 rounding is monotone\<close>

lemma pow2_powr: "pow2 e = 2 powr real_of_int e"
proof (cases "0 \<le> e")
  case True
  have "(2::real) ^ nat e = 2 powr real (nat e)" by (simp add: powr_realpow)
  also have "real (nat e) = real_of_int e" using True by simp
  finally show ?thesis using True by (simp add: pow2_def)
next
  case False
  have "1 / (2::real) ^ nat (- e) = 2 powr - real (nat (- e))"
    by (simp add: powr_minus powr_realpow divide_inverse)
  also have "- real (nat (- e)) = real_of_int e" using False by simp
  finally show ?thesis using False by (simp add: pow2_def)
qed

lemma pow2_pos: "0 < pow2 e"
  by (simp add: pow2_powr)

lemma pow2_mono: "a \<le> b \<Longrightarrow> pow2 a \<le> pow2 b"
  by (simp add: pow2_powr)

lemma pow2_add: "pow2 (a + b) = pow2 a * pow2 b"
  by (simp add: pow2_powr powr_add)

lemma pow2_nat: "pow2 (int m) = 2 ^ m"
  by (simp add: pow2_def)

lemma ilog2_bounds:
  assumes x: "0 < x"
  shows "pow2 (ilog2 x) \<le> x \<and> x < pow2 (ilog2 x + 1)"
proof (cases "1 \<le> x")
  case True
  define k where "k = \<lfloor>x\<rfloor>"
  have k: "0 < k" "of_int k \<le> x" "x < of_int k + 1"
    using True by (simp_all add: k_def)
  from bitlen_bounds [OF k(1)] have b: "2 ^ nat (bitlen k - 1) \<le> k" "k < 2 ^ nat (bitlen k)"
    by simp_all
  have b1: "1 \<le> bitlen k" using k(1) by (simp add: bitlen_alt_def)
  have i: "ilog2 x = bitlen k - 1" using True by (simp add: ilog2_def k_def)
  have "real_of_int (2 ^ nat (bitlen k - 1)) \<le> real_of_int k" using b(1) by (simp only: of_int_le_iff)
  from this k(2) have "real_of_int (2 ^ nat (bitlen k - 1)) \<le> x" by (rule order_trans)
  then have lo: "pow2 (bitlen k - 1) \<le> x" using b1 by (simp add: pow2_def)
  have "k + 1 \<le> 2 ^ nat (bitlen k)" using b(2) by simp
  then have "real_of_int (k + 1) \<le> real_of_int (2 ^ nat (bitlen k))" by (simp only: of_int_le_iff)
  moreover have "x < real_of_int (k + 1)" using k(3) by simp
  ultimately have "x < real_of_int (2 ^ nat (bitlen k))" by (rule less_le_trans [rotated])
  then have hi: "x < pow2 (bitlen k)" using b1 by (simp add: pow2_def)
  show ?thesis using lo hi by (simp add: i)
next
  case False
  define y where "y = 1 / x"
  define m where "m = \<lceil>y\<rceil> - 1"
  have y: "1 < y" using False x by (simp add: y_def)
  have m: "of_int m < y" "y \<le> of_int m + 1"
    unfolding m_def by linarith+
  have m0: "0 < m" using y m(2) by linarith
  from bitlen_bounds [OF m0] have b: "2 ^ nat (bitlen m - 1) \<le> m" "m < 2 ^ nat (bitlen m)"
    by simp_all
  have b1: "1 \<le> bitlen m" using m0 by (simp add: bitlen_alt_def)
  have i: "ilog2 x = - bitlen m" using False by (simp add: ilog2_def m_def y_def)
  have "m + 1 \<le> 2 ^ nat (bitlen m)" using b(2) by simp
  then have "real_of_int (m + 1) \<le> real_of_int (2 ^ nat (bitlen m))" by (simp only: of_int_le_iff)
  moreover have "y \<le> real_of_int (m + 1)" using m(2) by simp
  ultimately have "y \<le> real_of_int (2 ^ nat (bitlen m))" by (rule order_trans [rotated])
  then have yh: "y \<le> 2 ^ nat (bitlen m)" by simp
  have "real_of_int (2 ^ nat (bitlen m - 1)) \<le> real_of_int m" using b(1) by (simp only: of_int_le_iff)
  from this m(1) have "real_of_int (2 ^ nat (bitlen m - 1)) < y" by (rule le_less_trans)
  then have yl: "2 ^ nat (bitlen m - 1) < y" by simp
  have xy: "x = 1 / y" using x by (simp add: y_def)
  have lo: "pow2 (- bitlen m) \<le> x"
  proof -
    have "1 / 2 ^ nat (bitlen m) \<le> 1 / y" using yh y by (intro divide_left_mono) simp_all
    then show ?thesis using b1 by (simp add: pow2_def xy)
  qed
  have hi: "x < pow2 (- bitlen m + 1)"
  proof -
    have "1 / y < 1 / 2 ^ nat (bitlen m - 1)" using yl y by (intro divide_strict_left_mono) simp_all
    moreover have "pow2 (- bitlen m + 1) = 1 / 2 ^ nat (bitlen m - 1)"
    proof -
      have "real_of_int (- bitlen m + 1) = - real (nat (bitlen m - 1))" using b1 by simp
      then show ?thesis by (simp only: pow2_powr powr_minus powr_realpow) (simp add: divide_inverse powr_realpow)
    qed
    ultimately show ?thesis by (simp add: xy)
  qed
  show ?thesis using lo hi by (simp add: i)
qed

lemma ilog2_mono:
  assumes "0 < x" "x \<le> y"
  shows "ilog2 x \<le> ilog2 y"
proof (rule ccontr)
  assume "\<not> ilog2 x \<le> ilog2 y"
  then have "ilog2 y + 1 \<le> ilog2 x" by simp
  then have "pow2 (ilog2 y + 1) \<le> pow2 (ilog2 x)" by (rule pow2_mono)
  moreover have "y < pow2 (ilog2 y + 1)" using ilog2_bounds [of y] assms by simp
  moreover have "pow2 (ilog2 x) \<le> x" using ilog2_bounds [of x] assms by simp
  ultimately show False using assms by simp
qed

lemma round_even_of_int: "round_even (of_int k) = k"
  by (simp add: round_even_def)

lemma round_even_mono:
  assumes "a \<le> b"
  shows "round_even a \<le> round_even b"
proof -
  have f: "\<lfloor>a\<rfloor> \<le> \<lfloor>b\<rfloor>" using assms by (rule floor_mono)
  show ?thesis
  proof (cases "\<lfloor>a\<rfloor> = \<lfloor>b\<rfloor>")
    case True
    then show ?thesis using assms by (auto simp: round_even_def)
  next
    case False
    with f have "\<lfloor>a\<rfloor> + 1 \<le> \<lfloor>b\<rfloor>" by simp
    then show ?thesis by (auto simp: round_even_def)
  qed
qed

lemma round_even_le: "q \<le> of_int k \<Longrightarrow> round_even q \<le> k"
  using round_even_mono [of q "of_int k"] by (simp add: round_even_of_int)

lemma round_even_ge: "of_int k \<le> q \<Longrightarrow> k \<le> round_even q"
  using round_even_mono [of "of_int k" q] by (simp add: round_even_of_int)

lemma ulp_pos: "0 < ulp x"
  by (simp add: ulp_def pow2_pos)

lemma rounded_nonneg:
  assumes "0 \<le> x"
  shows "0 \<le> real_of_int (round_even (x / ulp x)) * ulp x"
proof -
  have "0 \<le> x / ulp x" using assms ulp_pos [of x] by simp
  then have "0 \<le> round_even (x / ulp x)" using round_even_ge [of 0 "x / ulp x"] by simp
  then show ?thesis using ulp_pos [of x] by simp
qed

lemma rounded_mono:
  assumes x: "0 < x" and xy: "x \<le> y"
  shows "real_of_int (round_even (x / ulp x)) * ulp x \<le> real_of_int (round_even (y / ulp y)) * ulp y"
proof -
  define ex where "ex = max (ilog2 x) (- 1022)"
  define ey where "ey = max (ilog2 y) (- 1022)"
  have y: "0 < y" using x xy by simp
  have ux: "ulp x = pow2 (ex - 52)" using x by (simp add: ulp_def ex_def)
  have uy: "ulp y = pow2 (ey - 52)" using y by (simp add: ulp_def ey_def)
  have le: "ex \<le> ey" using ilog2_mono [OF x xy] by (simp add: ex_def ey_def)
  show ?thesis
  proof (cases "ex = ey")
    case True
    then have u: "ulp y = ulp x" by (simp add: ux uy)
    have "x / ulp x \<le> y / ulp x" using xy ulp_pos [of x] by (simp add: divide_right_mono)
    then have "round_even (x / ulp x) \<le> round_even (y / ulp x)" by (rule round_even_mono)
    then have "real_of_int (round_even (x / ulp x)) \<le> real_of_int (round_even (y / ulp x))" by simp
    then show ?thesis unfolding u using ulp_pos [of x] by (simp add: mult_right_mono)
  next
    case False
    with le have lt: "ex + 1 \<le> ey" by simp
    have p53: "pow2 (ex + 1) = 2 ^ 53 * pow2 (ex - 52)"
      using pow2_add [of 53 "ex - 52"] pow2_nat [of 53] by (simp add: add.commute)
    have p52: "pow2 ey = 2 ^ 52 * pow2 (ey - 52)"
      using pow2_add [of 52 "ey - 52"] pow2_nat [of 52] by (simp add: add.commute)
    have "x < pow2 (ilog2 x + 1)" using ilog2_bounds [OF x] by simp
    also have "\<dots> \<le> pow2 (ex + 1)" by (rule pow2_mono) (simp add: ex_def)
    finally have "x < 2 ^ 53 * ulp x" by (simp add: p53 ux)
    then have "x / ulp x \<le> real_of_int (2 ^ 53)" using ulp_pos [of x] by (simp add: pos_divide_le_eq)
    then have "round_even (x / ulp x) \<le> 2 ^ 53" by (rule round_even_le)
    then have "real_of_int (round_even (x / ulp x)) \<le> real_of_int (2 ^ 53)" by (simp only: of_int_le_iff)
    then have "real_of_int (round_even (x / ulp x)) * ulp x \<le> 2 ^ 53 * ulp x"
      using ulp_pos [of x] by (simp add: mult_right_mono)
    then have a: "real_of_int (round_even (x / ulp x)) * ulp x \<le> pow2 (ex + 1)" by (simp add: p53 ux)
    have eyi: "ey = ilog2 y" using lt by (simp add: ex_def ey_def max_def split: if_splits)
    have "pow2 ey \<le> y" using ilog2_bounds [OF y] by (simp add: eyi)
    then have "2 ^ 52 * ulp y \<le> y" by (simp add: p52 uy)
    then have "real_of_int (2 ^ 52) \<le> y / ulp y" using ulp_pos [of y] by (simp add: pos_le_divide_eq)
    then have "2 ^ 52 \<le> round_even (y / ulp y)" by (rule round_even_ge)
    then have "real_of_int (2 ^ 52) \<le> real_of_int (round_even (y / ulp y))" by (simp only: of_int_le_iff)
    then have "2 ^ 52 * ulp y \<le> real_of_int (round_even (y / ulp y)) * ulp y"
      using ulp_pos [of y] by (simp add: mult_right_mono)
    then have b: "pow2 ey \<le> real_of_int (round_even (y / ulp y)) * ulp y" by (simp add: p52 uy)
    have "pow2 (ex + 1) \<le> pow2 ey" using lt by (rule pow2_mono)
    with a b show ?thesis by simp
  qed
qed

text \<open>
  On non-negative numbers rounding keeps the order: when the greater one rounds to a
  finite double, so does the smaller one, to a double that is not greater and not
  negative.
\<close>

lemma round_f64_mono:
  assumes "0 \<le> x" "x \<le> y" "round_f64 y = Some b"
  shows "\<exists>a. round_f64 x = Some a \<and> 0 \<le> a \<and> a \<le> b"
proof (cases "x = 0")
  case True
  have "0 \<le> b"
    using assms(3) rounded_nonneg [of y] assms(1,2)
    by (auto simp: round_f64_def split: if_splits)
  then show ?thesis using True by (simp add: round_f64_def)
next
  case False
  then have x: "0 < x" using assms(1) by simp
  then have y0: "y \<noteq> 0" using assms(2) by simp
  let ?rx = "real_of_int (round_even (x / ulp x)) * ulp x"
  let ?ry = "real_of_int (round_even (y / ulp y)) * ulp y"
  from assms(3) y0 have b: "b = ?ry" "\<bar>?ry\<bar> < pow2 1024"
    by (auto simp: round_f64_def split: if_splits)
  have m: "?rx \<le> ?ry" by (rule rounded_mono [OF x assms(2)])
  have n: "0 \<le> ?rx" by (rule rounded_nonneg [OF assms(1)])
  have "\<bar>?rx\<bar> < pow2 1024" using m n b(2) by simp
  then have "round_f64 x = Some ?rx" using False by (simp add: round_f64_def)
  then show ?thesis using m n b(1) by simp
qed

lemma sub_f64_mono:
  assumes "m \<le> x" "x \<le> y" "sub_f64 y m = Some b"
  shows "\<exists>a. sub_f64 x m = Some a \<and> 0 \<le> a \<and> a \<le> b"
  using round_f64_mono [of "x - m" "y - m" b] assms by (simp add: sub_f64_def)

text \<open>
  Integers up to \<open>2^53\<close> in magnitude are doubles, so the difference of two integral
  timestamps that far apart at most is exact.
\<close>

lemma ilog2_less: "0 < x \<Longrightarrow> x < pow2 b \<Longrightarrow> ilog2 x < b"
proof (rule ccontr)
  assume x: "0 < x" "x < pow2 b" and "\<not> ilog2 x < b"
  then have "pow2 b \<le> pow2 (ilog2 x)" by (intro pow2_mono) simp
  also have "\<dots> \<le> x" using ilog2_bounds [OF x(1)] by simp
  finally show False using x(2) by simp
qed

lemma ilog2_ge: "0 < x \<Longrightarrow> pow2 b \<le> x \<Longrightarrow> b \<le> ilog2 x"
proof (rule ccontr)
  assume x: "0 < x" "pow2 b \<le> x" and "\<not> b \<le> ilog2 x"
  then have "pow2 (ilog2 x + 1) \<le> pow2 b" by (intro pow2_mono) simp
  moreover have "x < pow2 (ilog2 x + 1)" using ilog2_bounds [OF x(1)] by simp
  ultimately show False using x(2) by simp
qed

lemma round_f64_multiple:
  assumes "x = real_of_int m * ulp x" "\<bar>x\<bar> < pow2 1024"
  shows "round_f64 x = Some x"
proof -
  have "x / ulp x = real_of_int m" using assms(1) ulp_pos [of x] by (simp add: nonzero_divide_eq_eq)
  then have "real_of_int (round_even (x / ulp x)) * ulp x = x"
    using assms(1) by (simp add: round_even_of_int)
  then show ?thesis using assms(2) by (simp add: round_f64_def)
qed

lemma round_f64_of_int:
  assumes k: "\<bar>k\<bar> \<le> 2 ^ 53"
  shows "round_f64 (real_of_int k) = Some (real_of_int k)"
proof (cases "k = 0")
  case True
  then show ?thesis by (simp add: round_f64_def)
next
  case False
  define x where "x = \<bar>real_of_int k\<bar>"
  define e where "e = ilog2 x"
  have x1: "1 \<le> x" using False by (simp add: x_def)
  then have x0: "0 < x" by simp
  have "real_of_int \<bar>k\<bar> \<le> real_of_int (2 ^ 53)" using k by (simp only: of_int_le_iff)
  then have x53: "x \<le> 2 ^ 53" by (simp add: x_def)
  have e0: "0 \<le> e" unfolding e_def using x1 by (intro ilog2_ge [OF x0]) (simp add: pow2_def)
  have "x < pow2 54" using x53 by (simp add: pow2_def)
  then have e53: "e \<le> 53" using ilog2_less [OF x0, of 54] by (simp add: e_def)
  have u: "ulp (real_of_int k) = pow2 (e - 52)"
    using e0 by (simp add: ulp_def e_def x_def)
  have big: "\<bar>real_of_int k\<bar> < pow2 1024"
  proof -
    have "x < pow2 54" by fact
    also have "\<dots> \<le> pow2 1024" by (rule pow2_mono) simp
    finally show ?thesis by (simp add: x_def)
  qed
  have "\<exists>m. real_of_int k = real_of_int m * pow2 (e - 52)"
  proof (cases "e \<le> 52")
    case True
    have "pow2 (52 - e) * pow2 (e - 52) = 1"
      using pow2_add [of "52 - e" "e - 52"] by (simp add: pow2_def)
    moreover have "pow2 (52 - e) = real_of_int (2 ^ nat (52 - e))" using True by (simp add: pow2_def)
    ultimately have "real_of_int (k * 2 ^ nat (52 - e)) * pow2 (e - 52) = real_of_int k"
      by simp
    then show ?thesis by metis
  next
    case False
    with e53 have e: "e = 53" by simp
    have "pow2 53 \<le> x" using ilog2_bounds [OF x0] by (simp add: e_def [symmetric] e)
    then have "x = 2 ^ 53" using x53 by (simp add: pow2_def)
    then have "real_of_int \<bar>k\<bar> = real_of_int (2 ^ 53)" by (simp add: x_def)
    then have "\<bar>k\<bar> = 2 ^ 53" by (simp only: of_int_eq_iff)
    then have "k = 2 ^ 53 \<or> k = - (2 ^ 53)" by linarith
    then have "real_of_int k = real_of_int (k div 2) * pow2 1"
      by (auto simp: pow2_def)
    then show ?thesis using e by auto
  qed
  then obtain m where "real_of_int k = real_of_int m * ulp (real_of_int k)" by (auto simp: u)
  then show ?thesis using big by (rule round_f64_multiple)
qed

lemma sub_f64_of_int:
  assumes "\<bar>a - b\<bar> \<le> 2 ^ 53"
  shows "sub_f64 (real_of_int a) (real_of_int b) = Some (real_of_int (a - b))"
  using round_f64_of_int [OF assms] by (simp add: sub_f64_def)

lemma hist_le: "hist k i b \<le> i"
  using length_filter_le [of "\<lambda>j. k j = b" "[0..<i]"] by (simp add: hist_def)

lemma add_i32_of_nat:
  "a + b < 2 ^ 31 \<Longrightarrow> add_i32 (word_of_nat a) (word_of_nat b) = Some (word_of_nat (a + b))"
  by (simp add: add_i32_def sint_of_nat_i32)

lemma sub_i32_of_nat:
  "0 < a \<Longrightarrow> a < 2 ^ 31 \<Longrightarrow> sub_i32 (word_of_nat a) 1 = Some (word_of_nat (a - 1))"
  using sint_of_nat_i32 [of a] by (simp add: sub_i32_def of_nat_diff)

lemma bucket_lookup:
  assumes "buckets_ok data n min_val rng" "j < n"
  shows "rd data j = Some (data ! j)"
    and "\<exists>d. sub_f64 (data ! j) min_val = Some d \<and> to_size_t d = Some (bucket_of data min_val j)"
    and "bucket_of data min_val j < rng"
proof -
  from assms have l: "j < length data"
    and c: "case sub_f64 (data ! j) min_val of None \<Rightarrow> False
            | Some d \<Rightarrow> - 1 < d \<and> d < 2 ^ 64 \<and> bucket_of data min_val j < rng"
    by (simp_all add: buckets_ok_def)
  from c obtain d where d: "sub_f64 (data ! j) min_val = Some d" "- 1 < d" "d < 2 ^ 64"
    and b: "bucket_of data min_val j < rng"
    by (cases "sub_f64 (data ! j) min_val") simp_all
  show "rd data j = Some (data ! j)" using l by (simp add: rd_def)
  show "bucket_of data min_val j < rng" by (rule b)
  have "to_size_t d = Some (bucket_of data min_val j)"
    using d by (simp add: to_size_t_def bucket_of_def)
  with d(1) show "\<exists>d. sub_f64 (data ! j) min_val = Some d \<and> to_size_t d = Some (bucket_of data min_val j)"
    by blast
qed

lemma count_step_ok:
  assumes ok: "buckets_ok data n min_val rng" and i: "i < n" and n: "n < 2 ^ 31"
    and len: "rng \<le> length c"
    and inv: "\<forall>b<rng. c ! b = word_of_nat (hist (bucket_of data min_val) i b)"
  shows "\<exists>c'. count_step data min_val i c = Some c' \<and> length c' = length c \<and>
           (\<forall>b<rng. c' ! b = word_of_nat (hist (bucket_of data min_val) (Suc i) b))"
proof -
  let ?k = "bucket_of data min_val"
  note bl = bucket_lookup [OF ok i]
  from bl(2) obtain d where d: "sub_f64 (data ! i) min_val = Some d" "to_size_t d = Some (?k i)"
    by blast
  have cb: "rd c (?k i) = Some (word_of_nat (hist ?k i (?k i)))"
    using bl(3) len inv by (simp add: rd_def)
  have "hist ?k i (?k i) + 1 < 2 ^ 31"
    using hist_le [of ?k i "?k i"] i n by simp
  then have add: "add_i32 (word_of_nat (hist ?k i (?k i))) 1 = Some (word_of_nat (hist ?k i (?k i) + 1))"
    using add_i32_of_nat [of "hist ?k i (?k i)" 1] by simp
  have "count_step data min_val i c = Some (c[?k i := word_of_nat (hist ?k i (?k i) + 1)])"
    using bl(3) len by (simp add: count_step_def bl(1) d cb add wr_def)
  moreover have "\<forall>b<rng. (c[?k i := word_of_nat (hist ?k i (?k i) + 1)]) ! b = word_of_nat (hist ?k (Suc i) b)"
    using inv len by (auto simp: hist_Suc nth_list_update)
  ultimately show ?thesis by simp
qed

lemma count_loop_ok:
  assumes ok: "buckets_ok data n min_val rng" and n: "n < 2 ^ 31"
    and len: "rng \<le> length c" and zero: "\<forall>b<rng. c ! b = 0"
  shows "\<exists>c'. for_each [0..<n] (count_step data min_val) c = Some c' \<and> length c' = length c \<and>
           (\<forall>b<rng. c' ! b = word_of_nat (hist (bucket_of data min_val) n b))"
proof -
  let ?I = "\<lambda>i (c' :: i32 list). length c' = length c \<and> (\<forall>b<rng. c' ! b = word_of_nat (hist (bucket_of data min_val) i b))"
  have "\<exists>c'. for_each [0..<n] (count_step data min_val) c = Some c' \<and> ?I n c'"
  proof (rule for_each_upt_rule [where I = ?I])
    show "?I 0 c" using zero by (simp add: hist_0)
    show "0 \<le> n" by simp
    fix i s assume "0 \<le> i" "i < n" "?I i s"
    then show "\<exists>s'. count_step data min_val i s = Some s' \<and> ?I (Suc i) s'"
      using count_step_ok [OF ok _ n, of i s] len by auto
  qed
  then show ?thesis by blast
qed

lemma accum_loop_ok:
  assumes n: "n < 2 ^ 31" and len: "rng \<le> length c"
    and inv: "\<forall>b<rng. c ! b = word_of_nat (hist k n b)"
  shows "\<exists>c'. for_each [1..<rng] accum_step c = Some c' \<and> length c' = length c \<and>
           (\<forall>b<rng. c' ! b = word_of_nat (below k n (Suc b)))"
proof (cases "rng = 0")
  case True
  then show ?thesis by simp
next
  case False
  let ?I = "\<lambda>i (c' :: i32 list). length c' = length c \<and> (\<forall>b<rng. c' ! b = word_of_nat (if b < i then below k n (Suc b) else hist k n b))"
  have "\<exists>c'. for_each [1..<rng] accum_step c = Some c' \<and> ?I rng c'"
  proof (rule for_each_upt_rule [where I = ?I])
    show "?I 1 c" using inv by (auto simp: below_Suc below_0)
    show "1 \<le> rng" using False by simp
    fix i s assume i: "1 \<le> i" "i < rng" and I: "?I i s"
    have a: "rd s i = Some (word_of_nat (hist k n i))"
      using i I len by (simp add: rd_def)
    have b: "rd s (i - Suc 0) = Some (word_of_nat (below k n i))"
      using i I len by (simp add: rd_def)
    have "hist k n i + below k n i < 2 ^ 31"
      using below_hist_le [of k n i] n by simp
    then have c: "add_i32 (word_of_nat (hist k n i)) (word_of_nat (below k n i)) = Some (word_of_nat (below k n (Suc i)))"
      using add_i32_of_nat [of "hist k n i" "below k n i"] by (simp add: below_Suc add.commute)
    have "accum_step i s = Some (s[i := word_of_nat (below k n (Suc i))])"
      using i I len by (simp add: accum_step_def a b c wr_def)
    moreover have "?I (Suc i) (s[i := word_of_nat (below k n (Suc i))])"
      using I len by (auto simp: nth_list_update less_Suc_eq)
    ultimately show "\<exists>s'. accum_step i s = Some s' \<and> ?I (Suc i) s'" by blast
  qed
  then show ?thesis by auto
qed

lemma place_step_ok:
  fixes c :: "i32 list" and out out0 :: "i32 list"
  assumes ok: "buckets_ok data n min_val rng" and i: "0 < i" "i \<le> n" and n: "n < 2 ^ 31"
    and len: "rng \<le> length c" "n \<le> length out"
    and cnt: "\<forall>b<rng. c ! b = word_of_nat (below (bucket_of data min_val) n b + hist (bucket_of data min_val) i b)"
    and placed: "\<forall>j. i \<le> j \<and> j < n \<longrightarrow> out ! slot (bucket_of data min_val) n j = word_of_nat j"
    and frame: "\<forall>p. n \<le> p \<longrightarrow> out ! p = out0 ! p"
  shows "\<exists>c' out'. place_step data min_val i (c, out) = Some (c', out') \<and>
           length c' = length c \<and> length out' = length out \<and>
           (\<forall>b<rng. c' ! b = word_of_nat (below (bucket_of data min_val) n b + hist (bucket_of data min_val) (i - 1) b)) \<and>
           (\<forall>j. i - 1 \<le> j \<and> j < n \<longrightarrow> out' ! slot (bucket_of data min_val) n j = word_of_nat j) \<and>
           (\<forall>p. n \<le> p \<longrightarrow> out' ! p = out0 ! p)"
proof -
  let ?k = "bucket_of data min_val"
  define idx where "idx = i - 1"
  let ?idx = idx
  let ?b = "?k ?idx"
  have idx: "?idx < n" "Suc ?idx = i" using i by (simp_all add: idx_def)
  note bl = bucket_lookup [OF ok idx(1)]
  from bl(2) obtain d where d: "sub_f64 (data ! idx) min_val = Some d" "to_size_t d = Some (?k idx)"
    by blast
  have hS: "hist ?k i b = hist ?k ?idx b + (if ?b = b then 1 else 0)" for b
    using hist_Suc [of ?k ?idx b] idx(2) by simp
  let ?a = "below ?k n ?b + hist ?k i ?b"
  have a1: "?a - 1 = slot ?k n ?idx" "0 < ?a"
    using hS [of ?b] by (simp_all add: slot_def)
  have "?a \<le> below ?k n ?b + hist ?k n ?b"
    using hist_mono [OF i(2), of ?k ?b] by simp
  then have a2: "?a < 2 ^ 31"
    using below_hist_le [of ?k n ?b] n by simp
  have sl: "slot ?k n ?idx < n" by (rule slot_less [OF idx(1)])
  have r: "rd c ?b = Some (word_of_nat ?a)"
    using bl(3) len(1) cnt by (simp add: rd_def)
  have s: "sub_i32 (word_of_nat ?a) 1 = Some (word_of_nat (slot ?k n ?idx))"
    using sub_i32_of_nat [OF a1(2) a2] a1(1) by simp
  have w: "wr c ?b (word_of_nat (slot ?k n ?idx)) = Some (c[?b := word_of_nat (slot ?k n ?idx)])"
    using bl(3) len(1) by (simp add: wr_def)
  have si: "sint (word_of_nat (slot ?k n ?idx) :: i32) = int (slot ?k n ?idx)"
    using sl n by (intro sint_of_nat_i32) simp
  have wa: "wr_at out (word_of_nat (slot ?k n ?idx)) (word_of_nat ?idx)
              = Some (out[slot ?k n ?idx := word_of_nat ?idx])"
    using sl len(2) by (simp add: wr_at_def si wr_def)
  have step: "place_step data min_val i (c, out)
                = Some (c[?b := word_of_nat (slot ?k n ?idx)], out[slot ?k n ?idx := word_of_nat ?idx])"
  proof -
    have e: "i - Suc 0 = idx" by (simp add: idx_def)
    show ?thesis by (simp add: place_step_def Let_def e bl(1) d r s w wa del: of_nat_add)
  qed
  have c': "\<forall>b<rng. (c[?b := word_of_nat (slot ?k n ?idx)]) ! b = word_of_nat (below ?k n b + hist ?k ?idx b)"
  proof (intro allI impI)
    fix b assume b: "b < rng"
    show "(c[?b := word_of_nat (slot ?k n ?idx)]) ! b = word_of_nat (below ?k n b + hist ?k ?idx b)"
    proof (cases "b = ?b")
      case True
      then show ?thesis using b len(1) by (simp add: slot_def)
    next
      case False
      then show ?thesis using b cnt hS [of b] by simp
    qed
  qed
  have o': "\<forall>j. ?idx \<le> j \<and> j < n \<longrightarrow> (out[slot ?k n ?idx := word_of_nat ?idx]) ! slot ?k n j = word_of_nat j"
  proof (intro allI impI)
    fix j assume j: "?idx \<le> j \<and> j < n"
    show "(out[slot ?k n ?idx := word_of_nat ?idx]) ! slot ?k n j = word_of_nat j"
    proof (cases "j = ?idx")
      case True
      then show ?thesis using sl len(2) by simp
    next
      case False
      with j idx(2) have ij: "i \<le> j" by linarith
      have "slot ?k n j \<noteq> slot ?k n ?idx"
        using slot_inj [of j n ?idx ?k] j idx(1) False by blast
      then show ?thesis using placed ij j by simp
    qed
  qed
  have f': "\<forall>p. n \<le> p \<longrightarrow> (out[slot ?k n ?idx := word_of_nat ?idx]) ! p = out0 ! p"
    using frame sl by simp
  show ?thesis using step c' o' f' by (simp add: idx_def)
qed

lemma place_loop_ok:
  fixes c :: "i32 list" and out :: "i32 list"
  assumes ok: "buckets_ok data n min_val rng" and n: "n < 2 ^ 31"
    and len: "rng \<le> length c" "n \<le> length out"
    and cnt: "\<forall>b<rng. c ! b = word_of_nat (below (bucket_of data min_val) n (Suc b))"
  shows "\<exists>c' out'. for_each (rev [1..<Suc n]) (place_step data min_val) (c, out) = Some (c', out') \<and>
           length out' = length out \<and>
           (\<forall>j<n. out' ! slot (bucket_of data min_val) n j = word_of_nat j) \<and>
           (\<forall>p. n \<le> p \<longrightarrow> out' ! p = out ! p)"
proof -
  let ?k = "bucket_of data min_val"
  let ?I = "\<lambda>i (s :: i32 list \<times> i32 list). length (fst s) = length c \<and> length (snd s) = length out \<and>
      (\<forall>b<rng. fst s ! b = word_of_nat (below ?k n b + hist ?k i b)) \<and>
      (\<forall>j. i \<le> j \<and> j < n \<longrightarrow> snd s ! slot ?k n j = word_of_nat j) \<and>
      (\<forall>p. n \<le> p \<longrightarrow> snd s ! p = out ! p)"
  have "\<exists>s'. for_each (rev [1..<Suc n]) (place_step data min_val) (c, out) = Some s' \<and> ?I 0 s'"
  proof (rule for_each_down_rule [where I = ?I])
    show "?I n (c, out)" using cnt by (auto simp: below_Suc)
    fix i and s :: "i32 list \<times> i32 list"
    assume i: "0 < i" "i \<le> n" and I: "?I i s"
    obtain c1 out1 where s: "s = (c1, out1)" by (cases s)
    have "\<exists>c' out'. place_step data min_val i (c1, out1) = Some (c', out') \<and>
           length c' = length c1 \<and> length out' = length out1 \<and>
           (\<forall>b<rng. c' ! b = word_of_nat (below ?k n b + hist ?k (i - 1) b)) \<and>
           (\<forall>j. i - 1 \<le> j \<and> j < n \<longrightarrow> out' ! slot ?k n j = word_of_nat j) \<and>
           (\<forall>p. n \<le> p \<longrightarrow> out' ! p = out ! p)"
      by (rule place_step_ok [OF ok i n]) (use I s len in auto)
    then show "\<exists>s'. place_step data min_val i s = Some s' \<and> ?I (i - 1) s'"
      using I s by auto
  qed
  then show ?thesis by auto
qed

lemma counting_sort_apply_slots:
  assumes ok: "buckets_ok data n min_val rng" and n: "n < 2 ^ 31"
    and len: "rng \<le> length count" "n \<le> length out_indices"
  shows "\<exists>c' out'. counting_sort_apply data n min_val count rng out_indices = Some (c', out') \<and>
           length out' = length out_indices \<and>
           (\<forall>j<n. out' ! slot (bucket_of data min_val) n j = word_of_nat j) \<and>
           (\<forall>p. n \<le> p \<longrightarrow> out' ! p = out_indices ! p)"
proof -
  let ?c0 = "replicate rng 0 @ drop rng count"
  have m: "memset_zero count rng = Some ?c0" using len by (simp add: memset_zero_def)
  have l0: "rng \<le> length ?c0" using len by simp
  have z0: "\<forall>b<rng. ?c0 ! b = 0" by (simp add: nth_append)
  from count_loop_ok [OF ok n l0 z0] obtain c1 where
    c1: "for_each [0..<n] (count_step data min_val) ?c0 = Some c1" "length c1 = length ?c0"
      "\<forall>b<rng. c1 ! b = word_of_nat (hist (bucket_of data min_val) n b)" by blast
  have l1: "rng \<le> length c1" using c1(2) l0 by simp
  from accum_loop_ok [OF n l1 c1(3)] obtain c2 where
    c2: "for_each [1..<rng] accum_step c1 = Some c2" "length c2 = length c1"
      "\<forall>b<rng. c2 ! b = word_of_nat (below (bucket_of data min_val) n (Suc b))" by blast
  have l2: "rng \<le> length c2" using c2(2) l1 by simp
  from place_loop_ok [OF ok n l2 len(2) c2(3)] obtain c3 out3 where
    c3: "for_each (rev [1..<Suc n]) (place_step data min_val) (c2, out_indices) = Some (c3, out3)"
      "length out3 = length out_indices"
      "\<forall>j<n. out3 ! slot (bucket_of data min_val) n j = word_of_nat j"
      "\<forall>p. n \<le> p \<longrightarrow> out3 ! p = out_indices ! p" by blast
  have "counting_sort_apply data n min_val count rng out_indices = Some (c3, out3)"
    by (simp only: counting_sort_apply_def m c1(1) c2(1) c3(1) Option.bind.simps)
  then show ?thesis using c3 by blast
qed

lemma nat_less_bound: "z < int m \<Longrightarrow> 0 < m \<Longrightarrow> nat z < m"
  by linarith

lemma minmax_loop:
  assumes "0 < n" "n \<le> length data"
  shows "for_each [1..<n] (minmax_step data) (data ! 0, data ! 0)
           = Some (Min (set (take n data)), Max (set (take n data)))"
proof -
  let ?I = "\<lambda>i (mm :: real \<times> real). mm = (Min (set (take i data)), Max (set (take i data)))"
  have "\<exists>s'. for_each [1..<n] (minmax_step data) (data ! 0, data ! 0) = Some s' \<and> ?I n s'"
  proof (rule for_each_upt_rule [where I = ?I])
    have "take 1 data = [data ! 0]"
      using assms by (cases data) simp_all
    then show "?I 1 (data ! 0, data ! 0)" by simp
    show "1 \<le> n" using assms by simp
    fix i and s :: "real \<times> real"
    assume i: "1 \<le> i" "i < n" and I: "?I i s"
    have il: "i < length data" using i assms by simp
    have t: "set (take (Suc i) data) = insert (data ! i) (set (take i data))"
      using il by (simp add: take_Suc_conv_app_nth)
    have ne: "set (take i data) \<noteq> {}" using i il by auto
    have mn: "Min (set (take (Suc i) data)) = min (data ! i) (Min (set (take i data)))"
      unfolding t using ne by (intro Min_insert) auto
    have mx: "Max (set (take (Suc i) data)) = max (data ! i) (Max (set (take i data)))"
      unfolding t using ne by (intro Max_insert) auto
    show "\<exists>s'. minmax_step data i s = Some s' \<and> ?I (Suc i) s'"
      using I il unfolding mn mx by (auto simp: minmax_step_def rd_def min_def max_def)
  qed
  then show ?thesis by simp
qed

lemma argsort_value:
  assumes "0 < n" "n \<le> length data"
  shows "counting_sort_argsort_f64 data n out_indices =
           (case sub_f64 (Max (set (take n data))) (Min (set (take n data))) of
              None \<Rightarrow> None
            | Some d \<Rightarrow>
                (case to_size_t d of
                   None \<Rightarrow> None
                 | Some r \<Rightarrow> Some (Min (set (take n data)), Max (set (take n data)), (r + 1) mod 2 ^ 64, out_indices)))"
proof -
  have "data \<noteq> []" using assms by auto
  then have "rd data 0 = Some (data ! 0)" by (simp add: rd_def)
  then show ?thesis
    using assms(1) minmax_loop [OF assms]
    by (simp add: counting_sort_argsort_f64_def split: option.splits)
qed

lemma argsort_range:
  assumes res: "counting_sort_argsort_f64 data n idx0 = Some (min_val, max_val, rng, idx1)"
    and n: "0 < n" "n \<le> length data" and rng: "0 < rng"
  shows "min_val = Min (set (take n data))" and "max_val = Max (set (take n data))"
    and "\<exists>d. sub_f64 max_val min_val = Some d \<and> - 1 < d \<and> d < 2 ^ 64 \<and> rng = nat \<lfloor>d\<rfloor> + 1"
proof -
  let ?S = "set (take n data)"
  from res argsort_value [OF n, of idx0] obtain d r where
    s: "sub_f64 (Max ?S) (Min ?S) = Some d" and
    r: "to_size_t d = Some r" and
    v: "min_val = Min ?S" "max_val = Max ?S" "rng = (r + 1) mod 2 ^ 64"
    by (auto split: option.splits)
  show "min_val = Min ?S" "max_val = Max ?S" by (rule v)+
  from r have d: "- 1 < d" "d < 2 ^ 64" "r = nat \<lfloor>d\<rfloor>"
    by (auto simp: to_size_t_def split: if_splits)
  have "r < 2 ^ 64"
  proof -
    have "\<lfloor>d\<rfloor> < int (2 ^ 64)" using d(2) by (simp add: floor_less_iff)
    moreover have "(0::nat) < 2 ^ 64" by simp
    ultimately have "nat \<lfloor>d\<rfloor> < 2 ^ 64" by (rule nat_less_bound)
    then show ?thesis using d(3) by simp
  qed
  with rng v(3) have rr: "rng = r + 1"
    by (metis Suc_eq_plus1 Suc_lessI mod_less mod_self not_less_iff_gr_or_eq)
  show "\<exists>d. sub_f64 max_val min_val = Some d \<and> - 1 < d \<and> d < 2 ^ 64 \<and> rng = nat \<lfloor>d\<rfloor> + 1"
    using s d rr v by auto
qed

lemma argsort_buckets_ok:
  assumes res: "counting_sort_argsort_f64 data n idx0 = Some (min_val, max_val, rng, idx1)"
    and n: "0 < n" "n \<le> length data" and rng: "0 < rng"
  shows "buckets_ok data n min_val rng"
proof -
  let ?S = "set (take n data)"
  note v = argsort_range [OF res n rng]
  from v(3) obtain d where d: "sub_f64 max_val min_val = Some d" "d < 2 ^ 64" "rng = nat \<lfloor>d\<rfloor> + 1"
    by blast
  have "case sub_f64 (data ! j) min_val of None \<Rightarrow> False
        | Some a \<Rightarrow> - 1 < a \<and> a < 2 ^ 64 \<and> bucket_of data min_val j < rng"
    if j: "j < n" for j
  proof -
    have m: "data ! j \<in> ?S" using j n by (auto simp: in_set_conv_nth)
    have lo: "min_val \<le> data ! j" using m by (simp add: v(1))
    have hi: "data ! j \<le> max_val" using m by (simp add: v(2))
    from sub_f64_mono [OF lo hi d(1)] obtain a where
      a: "sub_f64 (data ! j) min_val = Some a" "0 \<le> a" "a \<le> d" by blast
    have "\<lfloor>a\<rfloor> \<le> \<lfloor>d\<rfloor>" using a(3) by (rule floor_mono)
    then have "nat \<lfloor>a\<rfloor> < rng" using d(3) by simp
    then show ?thesis using a d(2) by (simp add: bucket_of_def)
  qed
  then show ?thesis using n by (simp add: buckets_ok_def)
qed

lemma apply_from_argsort:
  assumes res: "counting_sort_argsort_f64 data n idx0 = Some (min_val, max_val, rng, idx1)"
    and n: "0 < n" "n \<le> length data" "n < 2 ^ 31" and rng: "0 < rng"
    and len: "length count = rng" "length out_indices = n"
  shows "\<exists>count' out. counting_sort_apply data n min_val count rng out_indices = Some (count', out) \<and>
           length out = n \<and> (\<forall>j<n. out ! slot (bucket_of data min_val) n j = word_of_nat j)"
proof -
  have ok: "buckets_ok data n min_val rng"
    by (rule argsort_buckets_ok [OF res n(1,2) rng])
  from counting_sort_apply_slots [OF ok n(3), of count out_indices] len
  show ?thesis by auto
qed

text \<open>
  The subtraction rounds. In the column \<open>[1, 2^-60]\<close> the exact difference
  \<open>1 - 2^-60\<close> lies below 1, and the double nearest to it is 1: the size query returns
  the range 2, row 0 goes to bucket 1, and the permutation is \<open>[1, 0]\<close>.
\<close>

lemma counting_sort_rounded_difference:
  "counting_sort_argsort_f64 [1, 1 / 2 ^ 60] 2 [7, 7] = Some (1 / 2 ^ 60, 1, 2, [7, 7]) \<and>
   map_option snd (counting_sort_apply [1, 1 / 2 ^ 60] 2 (1 / 2 ^ 60) [0, 0] 2 [7, 7]) = Some [1, 0]"
proof -
  have d: "sub_f64 1 (1 / 2 ^ 60) = Some 1" by code_simp
  have a: "counting_sort_argsort_f64 [1, 1 / 2 ^ 60] 2 [7, 7] = Some (1 / 2 ^ 60, 1, 2, [7, 7])"
    using d by (simp add: counting_sort_argsort_f64_def minmax_step_def rd_def to_size_t_def upt_rec)
  have b: "map_option snd (counting_sort_apply [1, 1 / 2 ^ 60] 2 (1 / 2 ^ 60) [0, 0] 2 [7, 7]) = Some [1, 0]"
    by code_simp
  from a b show ?thesis by simp
qed

text \<open>
  The permutation that \<^verbatim>\<open>counting_sort_apply\<close> writes lists the rows in ascending order of
  their bucket \<^verbatim>\<open>(size_t)(data[j] - min_val)\<close>.
\<close>

lemma counting_sort_apply_sorted:
  assumes res: "counting_sort_argsort_f64 data n idx0 = Some (min_val, max_val, rng, idx1)"
    and n: "0 < n" "n \<le> length data" "n < 2 ^ 31" and rng: "0 < rng"
    and len: "length count = rng" "length out_indices = n"
  shows "\<exists>count' out. counting_sort_apply data n min_val count rng out_indices = Some (count', out) \<and>
           (\<forall>p q. p < q \<and> q < n \<longrightarrow>
              bucket_of data min_val (nat (sint (out ! p))) \<le> bucket_of data min_val (nat (sint (out ! q))))"
proof -
  let ?k = "bucket_of data min_val"
  from apply_from_argsort [OF assms] obtain count' out where
    run: "counting_sort_apply data n min_val count rng out_indices = Some (count', out)"
    and lo: "length out = n" and sl: "\<forall>j<n. out ! slot ?k n j = word_of_nat j" by blast
  have "?k (nat (sint (out ! p))) \<le> ?k (nat (sint (out ! q)))" if pq: "p < q" "q < n" for p q
  proof -
    from pq obtain j where j: "j < n" "slot ?k n j = p" using slot_surj [of p n ?k] by auto
    from pq obtain j' where j': "j' < n" "slot ?k n j' = q" using slot_surj [of q n ?k] by auto
    have b: "j < 2 ^ 31" "j' < 2 ^ 31" using j j' n(3) by simp_all
    have sp: "sint (out ! p) = int j" using sl j b by (auto simp: sint_of_nat_i32)
    have sq: "sint (out ! q) = int j'" using sl j' b by (auto simp: sint_of_nat_i32)
    have "?k j \<le> ?k j'"
    proof (rule ccontr)
      assume "\<not> ?k j \<le> ?k j'"
      then have "slot ?k n j' < slot ?k n j"
        by (intro slot_order [OF j'(1) j(1)]) simp
      with j j' pq show False by simp
    qed
    then show ?thesis by (simp add: sp sq)
  qed
  with run show ?thesis by blast
qed

section \<open>The claims about the extent sorter\<close>

text \<open>
  Claim C5 (permutation validity). For a non-empty column of finite timestamps, when
  the size query \<^verbatim>\<open>counting_sort_argsort_f64\<close> on the same rows returned \<open>min_val\<close> and \<open>rng\<close>
  (and the \<^verbatim>\<open>size_t\<close> addition in it did not wrap: \<open>0 < rng\<close>), the counting buffer has
  \<open>rng\<close> cells, the index buffer \<open>n\<close> cells, and \<open>n\<close> fits the \<^verbatim>\<open>int32_t\<close> cells
  (\<open>n < 2^31\<close>),
  \<^verbatim>\<open>counting_sort_apply\<close> has defined behaviour and leaves in \<^verbatim>\<open>out_indices\<close> a bijection
  on \<open>[0, n)\<close>: for every row index \<open>j < n\<close> there is exactly one position \<open>p < n\<close>
  that holds \<open>j\<close>.
\<close>

theorem counting_sort_apply_bijection:
  assumes res: "counting_sort_argsort_f64 data n idx0 = Some (min_val, max_val, rng, idx1)"
    and n: "0 < n" "n \<le> length data" "n < 2 ^ 31" and rng: "0 < rng"
    and len: "length count = rng" "length out_indices = n"
  shows "\<exists>count' out. counting_sort_apply data n min_val count rng out_indices = Some (count', out) \<and>
           length out = n \<and> (\<forall>j<n. \<exists>!p. p < n \<and> sint (out ! p) = int j)"
proof -
  let ?k = "bucket_of data min_val"
  from apply_from_argsort [OF assms] obtain count' out where
    run: "counting_sort_apply data n min_val count rng out_indices = Some (count', out)"
    and lo: "length out = n" and sl: "\<forall>j<n. out ! slot ?k n j = word_of_nat j" by blast
  have "\<exists>!p. p < n \<and> sint (out ! p) = int j" if j: "j < n" for j
  proof (rule ex1I [where a = "slot ?k n j"])
    have "j < 2 ^ 31" using j n(3) by simp
    then show "slot ?k n j < n \<and> sint (out ! slot ?k n j) = int j"
      using j sl by (simp add: slot_less sint_of_nat_i32)
  next
    fix p assume p: "p < n \<and> sint (out ! p) = int j"
    then obtain j' where j': "j' < n" "slot ?k n j' = p" using slot_surj [of p n ?k] by blast
    have "j' < 2 ^ 31" using j' n(3) by simp
    then have "sint (out ! p) = int j'"
      using sl j' by (auto simp: sint_of_nat_i32)
    with p have "j' = j" by simp
    with j' show "p = slot ?k n j" by simp
  qed
  with run lo show ?thesis by blast
qed

text \<open>
  Claim C4 (stability). Under the same conditions the permutation is stable: of two
  positions \<open>p < q\<close> whose rows carry equal timestamps, the earlier position holds the
  smaller row index, so rows with equal timestamps keep their input order. The witness
  is the specification's example: timestamps \<open>[30, 10, 20, 10]\<close> give \<open>min = 10\<close>,
  \<open>max = 30\<close>, \<open>range = 21\<close> and the permutation \<open>[1, 3, 2, 0]\<close>.
\<close>

theorem counting_sort_apply_stable:
  assumes res: "counting_sort_argsort_f64 data n idx0 = Some (min_val, max_val, rng, idx1)"
    and n: "0 < n" "n \<le> length data" "n < 2 ^ 31" and rng: "0 < rng"
    and len: "length count = rng" "length out_indices = n"
  shows "\<exists>count' out. counting_sort_apply data n min_val count rng out_indices = Some (count', out) \<and>
           (\<forall>p q. p < q \<and> q < n \<and> data ! nat (sint (out ! p)) = data ! nat (sint (out ! q))
                   \<longrightarrow> sint (out ! p) < sint (out ! q))"
proof -
  let ?k = "bucket_of data min_val"
  from apply_from_argsort [OF assms] obtain count' out where
    run: "counting_sort_apply data n min_val count rng out_indices = Some (count', out)"
    and lo: "length out = n" and sl: "\<forall>j<n. out ! slot ?k n j = word_of_nat j" by blast
  have "sint (out ! p) < sint (out ! q)"
    if pq: "p < q" "q < n" and eq: "data ! nat (sint (out ! p)) = data ! nat (sint (out ! q))" for p q
  proof -
    from pq obtain j where j: "j < n" "slot ?k n j = p" using slot_surj [of p n ?k] by auto
    from pq obtain j' where j': "j' < n" "slot ?k n j' = q" using slot_surj [of q n ?k] by auto
    have b: "j < 2 ^ 31" "j' < 2 ^ 31" using j j' n(3) by simp_all
    have sp: "sint (out ! p) = int j" using sl j b by (auto simp: sint_of_nat_i32)
    have sq: "sint (out ! q) = int j'" using sl j' b by (auto simp: sint_of_nat_i32)
    from eq have keq: "?k j = ?k j'" by (simp add: sp sq bucket_of_def)
    have "j < j'"
    proof (rule ccontr)
      assume "\<not> j < j'"
      moreover have "j \<noteq> j'" using j j' pq by auto
      ultimately have "j' < j" by simp
      then have "slot ?k n j' < slot ?k n j"
        using keq by (intro slot_order [OF j'(1) j(1)]) simp
      with j j' pq show False by simp
    qed
    then show ?thesis by (simp add: sp sq)
  qed
  with run show ?thesis by blast
qed

theorem counting_sort_apply_stable_witness:
  "counting_sort_argsort_f64 [30, 10, 20, 10] 4 [0, 0, 0, 0] = Some (10, 30, 21, [0, 0, 0, 0]) \<and>
   map_option snd (counting_sort_apply [30, 10, 20, 10] 4 10 (replicate 21 0) 21 [0, 0, 0, 0]) = Some [1, 3, 2, 0] \<and>
   sint ([1, 3, 2, 0 :: i32] ! 0) < sint ([1, 3, 2, 0 :: i32] ! 1)"
proof -
  have d: "sub_f64 30 10 = Some 20" by code_simp
  have a: "counting_sort_argsort_f64 [30, 10, 20, 10] 4 [0, 0, 0, 0] = Some (10, 30, 21, [0, 0, 0, 0])"
    by (simp add: counting_sort_argsort_f64_def minmax_step_def rd_def d to_size_t_def upt_rec)
  have b: "map_option snd (counting_sort_apply [30, 10, 20, 10] 4 10 (replicate 21 0) 21 [0, 0, 0, 0]) = Some [1, 3, 2, 0]"
    by code_simp
  from counting_sort_apply_stable [OF a, of "replicate 21 0" "[0, 0, 0, 0]"]
  obtain count' out where
    run: "counting_sort_apply [30, 10, 20, 10] 4 10 (replicate 21 0) 21 [0, 0, 0, 0] = Some (count', out)"
    and st: "\<forall>p q. p < q \<and> q < 4 \<and> [30, 10, 20, 10 :: real] ! nat (sint (out ! p)) = [30, 10, 20, 10] ! nat (sint (out ! q))
                   \<longrightarrow> sint (out ! p) < sint (out ! q)"
    by auto
  from run b have out: "out = [1, 3, 2, 0]" by simp
  from st [rule_format, of 0 1] have "sint (out ! 0) < sint (out ! 1)"
    by (simp add: out)
  then show ?thesis using a b out by simp
qed

theorem counting_sort_apply_bijection_witness:
  "counting_sort_argsort_f64 [5, 3, 5, 4] 4 [9, 9, 9, 9] = Some (3, 5, 3, [9, 9, 9, 9]) \<and>
   map_option snd (counting_sort_apply [5, 3, 5, 4] 4 3 [7, 7, 7] 3 [9, 9, 9, 9]) = Some [1, 3, 0, 2] \<and>
   is_permutation 4 [1, 3, 0, 2]"
proof -
  have d: "sub_f64 5 3 = Some 2" by code_simp
  have a: "counting_sort_argsort_f64 [5, 3, 5, 4] 4 [9, 9, 9, 9] = Some (3, 5, 3, [9, 9, 9, 9])"
    by (simp add: counting_sort_argsort_f64_def minmax_step_def rd_def d to_size_t_def upt_rec)
  have b: "map_option snd (counting_sort_apply [5, 3, 5, 4] 4 3 [7, 7, 7] 3 [9, 9, 9, 9]) = Some [1, 3, 0, 2]"
    by code_simp
  from counting_sort_apply_bijection [OF a, of "[7, 7, 7]" "[9, 9, 9, 9]"]
  obtain count' out where
    run: "counting_sort_apply [5, 3, 5, 4] 4 3 [7, 7, 7] 3 [9, 9, 9, 9] = Some (count', out)"
    and bij: "\<forall>j<4. \<exists>!p. p < 4 \<and> sint (out ! p) = int j"
    by auto
  from run b have out: "out = [1, 3, 0, 2]" by simp
  have "is_permutation 4 [1, 3, 0, 2]" by (simp add: is_permutation_def upt_rec)
  then show ?thesis using a b by simp
qed

text \<open>
  Claim C10 (the counting buffer's contents do not matter). Two runs of
  \<^verbatim>\<open>counting_sort_apply\<close> on the same rows, \<open>n\<close>, \<open>min_val\<close> and \<open>rng\<close>, with counting
  buffers of \<open>rng\<close> cells that hold anything at all, end the same way: the same index
  buffer (and the same counting buffer), or undefined behaviour in both. The function
  clears the buffer itself (\<^verbatim>\<open>memset\<close>) before it reads it.
\<close>

theorem counting_sort_apply_ignores_count:
  assumes "length c1 = rng" "length c2 = rng"
  shows "counting_sort_apply data n min_val c1 rng out_indices
           = counting_sort_apply data n min_val c2 rng out_indices"
  using assms by (simp add: counting_sort_apply_def memset_zero_def)

theorem counting_sort_apply_ignores_count_witness:
  "counting_sort_apply [30, 10, 20, 10] 4 10 (replicate 21 5) 21 [0, 0, 0, 0]
     = counting_sort_apply [30, 10, 20, 10] 4 10 (map word_of_nat [0..<21]) 21 [0, 0, 0, 0] \<and>
   map_option snd (counting_sort_apply [30, 10, 20, 10] 4 10 (replicate 21 5) 21 [0, 0, 0, 0]) = Some [1, 3, 2, 0]"
proof -
  have "counting_sort_apply [30, 10, 20, 10] 4 10 (replicate 21 5) 21 [0, 0, 0, 0]
     = counting_sort_apply [30, 10, 20, 10] 4 10 (map word_of_nat [0..<21]) 21 [0, 0, 0, 0]"
    by (rule counting_sort_apply_ignores_count) simp_all
  moreover have "map_option snd (counting_sort_apply [30, 10, 20, 10] 4 10 (replicate 21 5) 21 [0, 0, 0, 0]) = Some [1, 3, 2, 0]"
    by code_simp
  ultimately show ?thesis by simp
qed

lemma gather_unrolled_tail:
  "i \<le> n \<Longrightarrow>
   (case gather_unrolled src indices n i out of None \<Rightarrow> None
    | Some (i', out') \<Rightarrow> for_each [i'..<n] (gather_cell src indices) out')
   = for_each [i..<n] (gather_cell src indices) out"
proof (induction src indices n i out rule: gather_unrolled.induct)
  case (1 src indices n i out)
  show ?case
  proof (cases "i + 4 \<le> n")
    case False
    then show ?thesis by (subst gather_unrolled.simps) simp
  next
    case True
    then have u: "[i..<n] = i # (i + 1) # (i + 2) # (i + 3) # [i + 4..<n]"
      by (simp add: upt_conv_Cons eval_nat_numeral)
    show ?thesis
    proof (cases "gather_cell src indices i out")
      case None
      then show ?thesis using True by (subst gather_unrolled.simps) (simp add: u)
    next
      case a: (Some o1)
      show ?thesis
      proof (cases "gather_cell src indices (i + 1) o1")
        case None
        then show ?thesis using True a by (subst gather_unrolled.simps) (simp add: u)
      next
        case b: (Some o2)
        show ?thesis
        proof (cases "gather_cell src indices (i + 2) o2")
          case None
          then show ?thesis using True a b by (subst gather_unrolled.simps) (simp add: u)
        next
          case c: (Some o3)
          show ?thesis
          proof (cases "gather_cell src indices (i + 3) o3")
            case None
            then show ?thesis using True a b c by (subst gather_unrolled.simps) (simp add: u)
          next
            case d: (Some o4)
            have "i + 4 \<le> n" by (rule True)
            from "1.IH" [OF True a b c d this]
            show ?thesis using True a b c d by (subst gather_unrolled.simps) (simp add: u)
          qed
        qed
      qed
    qed
  qed
qed

lemma gather_f64_loop: "gather_f64 src indices n out = for_each [0..<n] (gather_cell src indices) out"
proof -
  have "gather_f64 src indices n out =
          (case gather_unrolled src indices n 0 out of None \<Rightarrow> None
           | Some (i', out') \<Rightarrow> for_each [i'..<n] (gather_cell src indices) out')"
    by (cases "gather_unrolled src indices n 0 out") (auto simp: gather_f64_def)
  also have "\<dots> = for_each [0..<n] (gather_cell src indices) out"
    by (rule gather_unrolled_tail) simp
  finally show ?thesis .
qed

lemma gather_i32_loop: "gather_i32 src indices n out = for_each [0..<n] (gather_cell src indices) out"
proof -
  have "gather_i32 src indices n out =
          (case gather_unrolled src indices n 0 out of None \<Rightarrow> None
           | Some (i', out') \<Rightarrow> for_each [i'..<n] (gather_cell src indices) out')"
    by (cases "gather_unrolled src indices n 0 out") (auto simp: gather_i32_def)
  also have "\<dots> = for_each [0..<n] (gather_cell src indices) out"
    by (rule gather_unrolled_tail) simp
  finally show ?thesis .
qed

lemma gather_cell_ok:
  assumes "i < length indices" "i < length out"
    and "0 \<le> sint (indices ! i)" "nat (sint (indices ! i)) < length src"
  shows "gather_cell src indices i out = Some (out[i := src ! nat (sint (indices ! i))])"
  using assms by (simp add: gather_cell_def rd_def rd_at_def wr_def)

lemma gather_loop_ok:
  assumes n: "n \<le> length indices" "n \<le> length out"
    and v: "\<forall>i<n. 0 \<le> sint (indices ! i) \<and> nat (sint (indices ! i)) < length src"
  shows "\<exists>out'. for_each [0..<n] (gather_cell src indices) out = Some out' \<and>
           length out' = length out \<and>
           (\<forall>i<n. out' ! i = src ! nat (sint (indices ! i))) \<and>
           (\<forall>i. n \<le> i \<longrightarrow> out' ! i = out ! i)"
proof -
  let ?I = "\<lambda>m out'. length out' = length out \<and>
           (\<forall>i<m. out' ! i = src ! nat (sint (indices ! i))) \<and>
           (\<forall>i. m \<le> i \<longrightarrow> out' ! i = out ! i)"
  have "\<exists>s'. for_each [0..<n] (gather_cell src indices) out = Some s' \<and> ?I n s'"
  proof (rule for_each_upt_rule [where I = ?I])
    show "?I 0 out" by simp
    show "0 \<le> n" by simp
    fix i s assume i: "0 \<le> i" "i < n" and I: "?I i s"
    have "gather_cell src indices i s = Some (s[i := src ! nat (sint (indices ! i))])"
      using i I n v by (intro gather_cell_ok) auto
    moreover have "?I (Suc i) (s[i := src ! nat (sint (indices ! i))])"
      using i I n by (auto simp: nth_list_update less_Suc_eq)
    ultimately show "\<exists>s'. gather_cell src indices i s = Some s' \<and> ?I (Suc i) s'" by blast
  qed
  then show ?thesis by blast
qed

lemma batch4_step_cells:
  "batch4_step ts_src sym_src price_src vol_src indices i (a, b, c, d) =
     (case gather_cell ts_src indices i a of None \<Rightarrow> None | Some a' \<Rightarrow>
      case gather_cell sym_src indices i b of None \<Rightarrow> None | Some b' \<Rightarrow>
      case gather_cell price_src indices i c of None \<Rightarrow> None | Some c' \<Rightarrow>
      case gather_cell vol_src indices i d of None \<Rightarrow> None | Some d' \<Rightarrow> Some (a', b', c', d'))"
  by (cases "rd indices i") (auto simp: batch4_step_def gather_cell_def split: Option.bind_splits option.splits)

lemma option_case4_bind:
  "(case (case A of None \<Rightarrow> None | Some a \<Rightarrow> FA a) of None \<Rightarrow> None | Some a' \<Rightarrow>
    case (case B of None \<Rightarrow> None | Some b \<Rightarrow> FB b) of None \<Rightarrow> None | Some b' \<Rightarrow>
    case (case C of None \<Rightarrow> None | Some c \<Rightarrow> FC c) of None \<Rightarrow> None | Some c' \<Rightarrow>
    case (case D of None \<Rightarrow> None | Some d \<Rightarrow> FD d) of None \<Rightarrow> None | Some d' \<Rightarrow> Some (a', b', c', d'))
   = (case A of None \<Rightarrow> None | Some a \<Rightarrow>
      case B of None \<Rightarrow> None | Some b \<Rightarrow>
      case C of None \<Rightarrow> None | Some c \<Rightarrow>
      case D of None \<Rightarrow> None | Some d \<Rightarrow>
        (case FA a of None \<Rightarrow> None | Some a' \<Rightarrow>
         case FB b of None \<Rightarrow> None | Some b' \<Rightarrow>
         case FC c of None \<Rightarrow> None | Some c' \<Rightarrow>
         case FD d of None \<Rightarrow> None | Some d' \<Rightarrow> Some (a', b', c', d')))"
  by (cases A; cases B; cases C; cases D; simp split: option.splits)

lemma batch4_loop:
  "for_each xs (batch4_step ts_src sym_src price_src vol_src indices) (a, b, c, d) =
     (case for_each xs (gather_cell ts_src indices) a of None \<Rightarrow> None | Some a' \<Rightarrow>
      case for_each xs (gather_cell sym_src indices) b of None \<Rightarrow> None | Some b' \<Rightarrow>
      case for_each xs (gather_cell price_src indices) c of None \<Rightarrow> None | Some c' \<Rightarrow>
      case for_each xs (gather_cell vol_src indices) d of None \<Rightarrow> None | Some d' \<Rightarrow> Some (a', b', c', d'))"
proof (induction xs arbitrary: a b c d)
  case Nil
  then show ?case by simp
next
  case (Cons x xs)
  have "for_each (x # xs) (batch4_step ts_src sym_src price_src vol_src indices) (a, b, c, d) =
     (case gather_cell ts_src indices x a of None \<Rightarrow> None | Some a1 \<Rightarrow>
      case gather_cell sym_src indices x b of None \<Rightarrow> None | Some b1 \<Rightarrow>
      case gather_cell price_src indices x c of None \<Rightarrow> None | Some c1 \<Rightarrow>
      case gather_cell vol_src indices x d of None \<Rightarrow> None | Some d1 \<Rightarrow>
        for_each xs (batch4_step ts_src sym_src price_src vol_src indices) (a1, b1, c1, d1))"
    by (cases "gather_cell ts_src indices x a"; cases "gather_cell sym_src indices x b";
        cases "gather_cell price_src indices x c"; cases "gather_cell vol_src indices x d")
       (simp_all add: batch4_step_cells)
  then show ?case
    by (simp only: Cons.IH for_each.simps option_case4_bind)
qed

section \<open>The claim about the columnar reorder engine\<close>

text \<open>
  Claim C7 (gather correctness). Let the \<open>n\<close> indices all lie in \<open>[0, m)\<close>, the source
  columns have at least \<open>m\<close> cells and the output buffers at least \<open>n\<close> (the claim's
  case is \<open>m = n\<close>). Then \<^verbatim>\<open>gather_f64\<close> and \<^verbatim>\<open>gather_i32\<close> have defined behaviour and
  leave \<open>out[i] = src[indices[i]]\<close> for every \<open>i < n\<close>, and the fused \<^verbatim>\<open>gather_batch4\<close>
  leaves in its four output buffers exactly what the four single-column gathers leave
  in theirs.
\<close>

theorem gather_correct:
  assumes n: "n \<le> length indices"
    and v: "\<forall>i<n. 0 \<le> sint (indices ! i) \<and> nat (sint (indices ! i)) < m"
    and src: "m \<le> length ts_src" "m \<le> length sym_src" "m \<le> length price_src" "m \<le> length vol_src"
    and out: "n \<le> length ts_out" "n \<le> length sym_out" "n \<le> length price_out" "n \<le> length vol_out"
  shows "\<exists>a b c d.
           gather_f64 ts_src indices n ts_out = Some a \<and>
           gather_i32 sym_src indices n sym_out = Some b \<and>
           gather_f64 price_src indices n price_out = Some c \<and>
           gather_i32 vol_src indices n vol_out = Some d \<and>
           (\<forall>i<n. a ! i = ts_src ! nat (sint (indices ! i)) \<and>
                  b ! i = sym_src ! nat (sint (indices ! i)) \<and>
                  c ! i = price_src ! nat (sint (indices ! i)) \<and>
                  d ! i = vol_src ! nat (sint (indices ! i))) \<and>
           gather_batch4 ts_src sym_src price_src vol_src indices n ts_out sym_out price_out vol_out
             = Some (a, b, c, d)"
proof -
  have v': "\<forall>i<n. 0 \<le> sint (indices ! i) \<and> nat (sint (indices ! i)) < length xs" if "m \<le> length xs" for xs :: "'x list"
    using v that by fastforce
  from gather_loop_ok [OF n out(1) v' [OF src(1)]] obtain a where
    a: "for_each [0..<n] (gather_cell ts_src indices) ts_out = Some a"
       "\<forall>i<n. a ! i = ts_src ! nat (sint (indices ! i))" by blast
  from gather_loop_ok [OF n out(2) v' [OF src(2)]] obtain b where
    b: "for_each [0..<n] (gather_cell sym_src indices) sym_out = Some b"
       "\<forall>i<n. b ! i = sym_src ! nat (sint (indices ! i))" by blast
  from gather_loop_ok [OF n out(3) v' [OF src(3)]] obtain c where
    c: "for_each [0..<n] (gather_cell price_src indices) price_out = Some c"
       "\<forall>i<n. c ! i = price_src ! nat (sint (indices ! i))" by blast
  from gather_loop_ok [OF n out(4) v' [OF src(4)]] obtain d where
    d: "for_each [0..<n] (gather_cell vol_src indices) vol_out = Some d"
       "\<forall>i<n. d ! i = vol_src ! nat (sint (indices ! i))" by blast
  have "gather_batch4 ts_src sym_src price_src vol_src indices n ts_out sym_out price_out vol_out
          = Some (a, b, c, d)"
    by (simp add: gather_batch4_def batch4_loop a(1) b(1) c(1) d(1))
  then show ?thesis
    using a b c d by (simp add: gather_f64_loop gather_i32_loop)
qed

theorem gather_correct_witness:
  "gather_f64 [10, 20, 30, 40, 50, 60 :: nat] [5, 3, 1, 0, 2, 4] 6 (replicate 6 0) = Some [60, 40, 20, 10, 30, 50] \<and>
   gather_i32 [1, 2, 3, 4, 5, 6] [5, 3, 1, 0, 2, 4] 6 (replicate 6 0) = Some [6, 4, 2, 1, 3, 5] \<and>
   gather_batch4 [10, 20, 30, 40, 50, 60 :: nat] [1, 2, 3, 4, 5, 6] [11, 21, 31, 41, 51, 61] [7, 8, 9, 10, 11, 12]
       [5, 3, 1, 0, 2, 4] 6 (replicate 6 0) (replicate 6 0) (replicate 6 0) (replicate 6 0)
     = Some ([60, 40, 20, 10, 30, 50], [6, 4, 2, 1, 3, 5], [61, 41, 21, 11, 31, 51], [12, 10, 8, 7, 9, 11])"
proof -
  let ?idx = "[5, 3, 1, 0, 2, 4] :: i32 list"
  have v: "\<forall>i<6. 0 \<le> sint (?idx ! i) \<and> nat (sint (?idx ! i)) < 6"
    by (simp add: less_Suc_eq eval_nat_numeral)
  have f: "gather_f64 [10, 20, 30, 40, 50, 60 :: nat] ?idx 6 (replicate 6 0) = Some [60, 40, 20, 10, 30, 50]"
    by code_simp
  have g: "gather_i32 [1, 2, 3, 4, 5, 6] ?idx 6 (replicate 6 0) = Some [6, 4, 2, 1, 3, 5]"
    by code_simp
  have p: "gather_f64 [11, 21, 31, 41, 51, 61 :: nat] ?idx 6 (replicate 6 0) = Some [61, 41, 21, 11, 31, 51]"
    by code_simp
  have q: "gather_i32 [7, 8, 9, 10, 11, 12] ?idx 6 (replicate 6 0) = Some [12, 10, 8, 7, 9, 11]"
    by code_simp
  from gather_correct [of 6 ?idx 6 "[10, 20, 30, 40, 50, 60 :: nat]" "[1, 2, 3, 4, 5, 6]"
      "[11, 21, 31, 41, 51, 61]" "[7, 8, 9, 10, 11, 12]"
      "replicate 6 0" "replicate 6 0" "replicate 6 0" "replicate 6 0", OF _ v]
  show ?thesis
    unfolding f g p q by simp
qed

lemma run_starts_Suc:
  "run_starts ts (Suc i) = run_starts ts i @ (if i = 0 \<or> ts ! i \<noteq> ts ! (i - 1) then [i] else [])"
  by (simp add: run_starts_def)

lemma run_starts_length_le: "length (run_starts ts i) \<le> i"
  using length_filter_le [of _ "[0..<i]"] by (simp add: run_starts_def)

lemma run_starts_less: "x \<in> set (run_starts ts i) \<Longrightarrow> x < i"
  by (simp add: run_starts_def)

lemma run_starts_sorted: "sorted_wrt (<) (run_starts ts i)"
  unfolding run_starts_def by (rule sorted_wrt_filter) simp

lemma run_starts_hd: "0 < i \<Longrightarrow> run_starts ts i ! 0 = 0"
  by (simp add: run_starts_def upt_conv_Cons)

lemma run_starts_pos: "0 < i \<Longrightarrow> 0 < length (run_starts ts i)"
  by (simp add: run_starts_def upt_conv_Cons)

lemma not_start:
  assumes "j < i" "j \<notin> set (run_starts ts i)"
  shows "0 < j \<and> ts ! j = ts ! (j - 1)"
  using assms by (auto simp: run_starts_def)

lemma is_start:
  assumes "j \<in> set (run_starts ts i)" "0 < j"
  shows "ts ! j \<noteq> ts ! (j - 1)"
  using assms by (auto simp: run_starts_def)

lemma boundary_loop:
  assumes n: "0 < n" "n \<le> length ts" "n < length out"
  shows "\<exists>count prev out'.
           for_each [1..<n] (boundary_step ts) (1, ts ! 0, out[0 := 0]) = Some (count, prev, out') \<and>
           count = length (run_starts ts n) \<and> length out' = length out \<and>
           take count out' = map word_of_nat (run_starts ts n)"
proof -
  let ?I = "\<lambda>i (s :: nat \<times> real \<times> i32 list).
      fst s = length (run_starts ts i) \<and> fst (snd s) = ts ! (i - 1) \<and>
      length (snd (snd s)) = length out \<and>
      take (fst s) (snd (snd s)) = map word_of_nat (run_starts ts i)"
  have "\<exists>s'. for_each [1..<n] (boundary_step ts) (1, ts ! 0, out[0 := 0]) = Some s' \<and> ?I n s'"
  proof (rule for_each_upt_rule [where I = ?I])
    have "take 1 (out[0 := 0]) = [0]"
      using n by (cases out) simp_all
    then show "?I 1 (1, ts ! 0, out[0 := 0])"
      by (simp add: run_starts_def)
    show "1 \<le> n" using n by simp
    fix i and s :: "nat \<times> real \<times> i32 list"
    assume i: "1 \<le> i" "i < n" and I: "?I i s"
    obtain count prev o1 where s: "s = (count, prev, o1)" by (cases s)
    have c: "count = length (run_starts ts i)" "prev = ts ! (i - 1)" "length o1 = length out"
      "take count o1 = map word_of_nat (run_starts ts i)"
      using I unfolding s by auto
    have r: "rd ts i = Some (ts ! i)" using i n by (simp add: rd_def)
    have cl: "count < length o1"
      using run_starts_length_le [of ts i] c(1,3) i n by simp
    show "\<exists>s'. boundary_step ts i s = Some s' \<and> ?I (Suc i) s'"
    proof (cases "ts ! i \<noteq> ts ! (i - 1)")
      case True
      then have rs: "run_starts ts (Suc i) = run_starts ts i @ [i]"
        by (simp add: run_starts_Suc)
      have "boundary_step ts i s = Some (count + 1, ts ! i, o1[count := word_of_nat i])"
        using True cl by (simp add: boundary_step_def s r c(2) wr_def)
      moreover have "take (count + 1) (o1[count := word_of_nat i]) = map word_of_nat (run_starts ts (Suc i))"
        using cl c(4) by (simp add: rs take_Suc_conv_app_nth)
      ultimately show ?thesis using c by (simp add: rs)
    next
      case False
      then have rs: "run_starts ts (Suc i) = run_starts ts i"
        using i by (simp add: run_starts_Suc)
      have "boundary_step ts i s = Some s"
        using False by (simp add: boundary_step_def s r c(2))
      then show ?thesis using c s False by (simp add: rs)
    qed
  qed
  then show ?thesis by auto
qed

lemma find_snapshot_boundaries_run_starts:
  assumes n: "0 < n" "n \<le> length ts" "n < length out"
  shows "\<exists>out'. find_snapshot_boundaries ts n out = Some (length (run_starts ts n), out') \<and>
           length out' = length out \<and>
           take (Suc (length (run_starts ts n))) out' = map word_of_nat (run_starts ts n @ [n])"
proof -
  from boundary_loop [OF n] obtain count prev o1 where
    l: "for_each [1..<n] (boundary_step ts) (1, ts ! 0, out[0 := 0]) = Some (count, prev, o1)"
    and c: "count = length (run_starts ts n)" "length o1 = length out"
      "take count o1 = map word_of_nat (run_starts ts n)" by blast
  have cl: "count < length o1"
    using run_starts_length_le [of ts n] c(1,2) n by simp
  have "out \<noteq> []" using n by auto
  then have w0: "wr out 0 0 = Some (out[0 := 0])" by (simp add: wr_def)
  have "ts \<noteq> []" using n by auto
  then have r0: "rd ts 0 = Some (ts ! 0)" by (simp add: rd_def)
  have wf: "wr o1 count (word_of_nat n) = Some (o1[count := word_of_nat n])"
    using cl by (simp add: wr_def)
  note l' = l [unfolded One_nat_def]
  have "find_snapshot_boundaries ts n out = Some (count, o1[count := word_of_nat n])"
    using n(1) by (simp add: find_snapshot_boundaries_def w0 r0 l' wf)
  moreover have "take (Suc count) (o1[count := word_of_nat n]) = map word_of_nat (run_starts ts n @ [n])"
    using cl c(3) by (simp add: take_Suc_conv_app_nth)
  ultimately show ?thesis using c by simp
qed

lemma between_not_mem:
  fixes xs :: "nat list"
  assumes s: "sorted_wrt (<) xs" and k: "Suc k < length xs"
    and j: "xs ! k < j" "j < xs ! Suc k"
  shows "j \<notin> set xs"
proof
  assume "j \<in> set xs"
  then obtain m where m: "m < length xs" "xs ! m = j" by (auto simp: in_set_conv_nth)
  show False
  proof (cases "m \<le> k")
    case True
    have "xs ! m \<le> xs ! k"
    proof (cases "m = k")
      case False
      with True have "m < k" by simp
      then have "xs ! m < xs ! k" using sorted_wrt_nth_less [OF s, of m k] k by simp
      then show ?thesis by simp
    qed simp
    with m j show False by simp
  next
    case False
    have "xs ! Suc k \<le> xs ! m"
    proof (cases "m = Suc k")
      case f: False
      with False have "Suc k < m" by simp
      then have "xs ! Suc k < xs ! m" using sorted_wrt_nth_less [OF s, of "Suc k" m] m by simp
      then show ?thesis by simp
    qed simp
    with m j show False by simp
  qed
qed

lemma bounds_sorted:
  "sorted_wrt (<) (run_starts ts n @ [n])"
  by (simp add: sorted_wrt_append run_starts_sorted run_starts_less)

lemma run_constant:
  assumes k: "k < length (run_starts ts n)"
    and i: "(run_starts ts n @ [n]) ! k \<le> i" "i < (run_starts ts n @ [n]) ! Suc k"
  shows "ts ! i = ts ! ((run_starts ts n @ [n]) ! k)"
  using i
proof (induction i)
  case 0
  then show ?case by simp
next
  case (Suc i)
  let ?bs = "run_starts ts n @ [n]"
  show ?case
  proof (cases "?bs ! k = Suc i")
    case True
    then show ?thesis by simp
  next
    case False
    with Suc.prems have lo: "?bs ! k \<le> i" "?bs ! k < Suc i" by simp_all
    have "Suc i \<notin> set ?bs"
      using between_not_mem [OF bounds_sorted _ lo(2) Suc.prems(2)] k by simp
    moreover have "Suc i < n"
    proof -
      have "?bs ! Suc k \<in> set ?bs" using k by (intro nth_mem) simp
      then have "?bs ! Suc k \<le> n" by (auto dest: run_starts_less)
      with Suc.prems(2) show ?thesis by simp
    qed
    ultimately have "ts ! Suc i = ts ! i"
      using not_start [of "Suc i" n ts] by simp
    moreover have "ts ! i = ts ! (?bs ! k)"
      using Suc.IH lo(1) Suc.prems(2) by simp
    ultimately show ?thesis by simp
  qed
qed

lemma runs_differ:
  assumes k: "Suc k < length (run_starts ts n)"
  shows "ts ! ((run_starts ts n @ [n]) ! k) \<noteq> ts ! ((run_starts ts n @ [n]) ! Suc k)"
proof -
  let ?S = "run_starts ts n"
  let ?bs = "?S @ [n]"
  have lt: "?bs ! k < ?bs ! Suc k"
    using sorted_wrt_nth_less [OF bounds_sorted, of k "Suc k" ts n] k by simp
  have e: "?bs ! Suc k = ?S ! Suc k" using k by (simp add: nth_append)
  have mem: "?bs ! Suc k \<in> set ?S" unfolding e using k by (intro nth_mem)
  have pos: "0 < ?bs ! Suc k" using lt by simp
  from is_start [OF mem pos] have d: "ts ! (?bs ! Suc k) \<noteq> ts ! (?bs ! Suc k - 1)" .
  have "ts ! (?bs ! Suc k - 1) = ts ! (?bs ! k)"
    using lt pos k by (intro run_constant) simp_all
  with d show ?thesis by simp
qed

section \<open>The claim about the snapshot boundary locator\<close>

text \<open>
  Claim C6 (boundary completeness). For \<open>n = 0\<close> the function returns 0 and leaves
  \<^verbatim>\<open>out_starts\<close> as it was. For an ascending column of \<open>n > 0\<close> rows (\<open>n < 2^31\<close>, and
  room for \<open>n + 1\<close> offsets) it has defined behaviour, returns a count \<open>c > 0\<close> and
  leaves \<open>c + 1\<close> offsets: the first is 0, the last is \<open>n\<close>, they increase strictly
  (so the intervals \<open>[starts[k], starts[k+1])\<close> partition \<open>[0, n)\<close>), all rows of one
  interval carry the value of its first row, and the values of consecutive intervals
  increase strictly. The witness is the specification's example: \<open>[10, 10, 20, 30]\<close>
  gives the offsets \<open>[0, 2, 3, 4]\<close> and three snapshots.
\<close>

theorem find_snapshot_boundaries_partition:
  assumes srt: "sorted (take n sorted_ts)" and n: "n \<le> length sorted_ts" "n < 2 ^ 31"
    and cap: "n < length out_starts"
  shows "(n = 0 \<longrightarrow> find_snapshot_boundaries sorted_ts n out_starts = Some (0, out_starts)) \<and>
         (0 < n \<longrightarrow>
           (\<exists>c out. find_snapshot_boundaries sorted_ts n out_starts = Some (c, out) \<and> 0 < c \<and>
              sint (out ! 0) = 0 \<and> sint (out ! c) = int n \<and>
              (\<forall>k<c. sint (out ! k) < sint (out ! Suc k)) \<and>
              (\<forall>k<c. \<forall>i. sint (out ! k) \<le> int i \<and> int i < sint (out ! Suc k)
                  \<longrightarrow> sorted_ts ! i = sorted_ts ! nat (sint (out ! k))) \<and>
              (\<forall>k. Suc k < c
                  \<longrightarrow> sorted_ts ! nat (sint (out ! k)) < sorted_ts ! nat (sint (out ! Suc k)))))"
proof (intro conjI impI)
  assume "n = 0"
  then show "find_snapshot_boundaries sorted_ts n out_starts = Some (0, out_starts)"
    by (simp add: find_snapshot_boundaries_def)
next
  assume pos: "0 < n"
  let ?S = "run_starts sorted_ts n"
  let ?bs = "?S @ [n]"
  let ?c = "length ?S"
  from find_snapshot_boundaries_run_starts [OF pos n(1) cap] obtain out where
    run: "find_snapshot_boundaries sorted_ts n out_starts = Some (?c, out)"
    and tk: "take (Suc ?c) out = map word_of_nat ?bs" by blast
  have cpos: "0 < ?c" by (rule run_starts_pos [OF pos])
  have le_n: "?bs ! k \<le> n" if "k \<le> ?c" for k
  proof -
    have "?bs ! k \<in> set ?bs" using that by (intro nth_mem) simp
    then show ?thesis by (auto dest: run_starts_less)
  qed
  have cell: "sint (out ! k) = int (?bs ! k)" if k: "k \<le> ?c" for k
  proof -
    have "out ! k = take (Suc ?c) out ! k" using k by simp
    also have "\<dots> = word_of_nat (?bs ! k)" unfolding tk using k by (intro nth_map) simp
    finally have "out ! k = word_of_nat (?bs ! k)" .
    moreover have "?bs ! k < 2 ^ 31" using le_n [OF k] n(2) by simp
    ultimately show ?thesis by (simp add: sint_of_nat_i32)
  qed
  have first: "sint (out ! 0) = 0"
    using cell [of 0] run_starts_hd [OF pos, of sorted_ts] cpos by (simp add: nth_append)
  have last: "sint (out ! ?c) = int n"
    using cell [of ?c] by simp
  have incr: "\<forall>k<?c. sint (out ! k) < sint (out ! Suc k)"
  proof (intro allI impI)
    fix k assume k: "k < ?c"
    have "?bs ! k < ?bs ! Suc k"
      using sorted_wrt_nth_less [OF bounds_sorted, of k "Suc k" sorted_ts n] k by simp
    then show "sint (out ! k) < sint (out ! Suc k)"
      using k by (simp add: cell)
  qed
  have const: "\<forall>k<?c. \<forall>i. sint (out ! k) \<le> int i \<and> int i < sint (out ! Suc k)
                  \<longrightarrow> sorted_ts ! i = sorted_ts ! nat (sint (out ! k))"
  proof (intro allI impI)
    fix k i assume k: "k < ?c" and i: "sint (out ! k) \<le> int i \<and> int i < sint (out ! Suc k)"
    from i k have "?bs ! k \<le> i" "i < ?bs ! Suc k" by (simp_all add: cell)
    from run_constant [OF k this] show "sorted_ts ! i = sorted_ts ! nat (sint (out ! k))"
      using k by (simp add: cell)
  qed
  have diff: "\<forall>k. Suc k < ?c \<longrightarrow> sorted_ts ! nat (sint (out ! k)) < sorted_ts ! nat (sint (out ! Suc k))"
  proof (intro allI impI)
    fix k assume k: "Suc k < ?c"
    have lt: "?bs ! k < ?bs ! Suc k"
      using sorted_wrt_nth_less [OF bounds_sorted, of k "Suc k" sorted_ts n] k by simp
    have hi: "?bs ! Suc k < n"
    proof -
      have "?bs ! Suc k = ?S ! Suc k" using k by (simp add: nth_append)
      then show ?thesis using run_starts_less [of "?S ! Suc k" sorted_ts n] k by simp
    qed
    have "take n sorted_ts ! (?bs ! k) \<le> take n sorted_ts ! (?bs ! Suc k)"
      using lt hi n(1) by (intro sorted_nth_mono [OF srt]) simp_all
    then have "sorted_ts ! (?bs ! k) \<le> sorted_ts ! (?bs ! Suc k)"
      using lt hi by simp
    moreover have "sorted_ts ! (?bs ! k) \<noteq> sorted_ts ! (?bs ! Suc k)"
      by (rule runs_differ [OF k])
    ultimately show "sorted_ts ! nat (sint (out ! k)) < sorted_ts ! nat (sint (out ! Suc k))"
      using k by (simp add: cell)
  qed
  show "\<exists>c out. find_snapshot_boundaries sorted_ts n out_starts = Some (c, out) \<and> 0 < c \<and>
              sint (out ! 0) = 0 \<and> sint (out ! c) = int n \<and>
              (\<forall>k<c. sint (out ! k) < sint (out ! Suc k)) \<and>
              (\<forall>k<c. \<forall>i. sint (out ! k) \<le> int i \<and> int i < sint (out ! Suc k)
                  \<longrightarrow> sorted_ts ! i = sorted_ts ! nat (sint (out ! k))) \<and>
              (\<forall>k. Suc k < c
                  \<longrightarrow> sorted_ts ! nat (sint (out ! k)) < sorted_ts ! nat (sint (out ! Suc k)))"
    using run cpos first last incr const diff by blast
qed

theorem find_snapshot_boundaries_partition_witness:
  "find_snapshot_boundaries [10, 10, 20, 30] 4 [9, 9, 9, 9, 9] = Some (3, [0, 2, 3, 4, 9]) \<and>
   find_snapshot_boundaries [10, 10, 20, 30] 0 [9, 9, 9, 9, 9] = Some (0, [9, 9, 9, 9, 9]) \<and>
   sint ([0, 2, 3, 4, 9 :: i32] ! 3) = 4"
proof -
  have e: "find_snapshot_boundaries [10, 10, 20, 30] 4 [9, 9, 9, 9, 9] = Some (3, [0, 2, 3, 4, 9])"
    by code_simp
  have s: "sorted (take 4 [10, 10, 20, 30 :: real])" by simp
  from find_snapshot_boundaries_partition [OF s, of "[9, 9, 9, 9, 9]"]
  obtain c out where
    r: "find_snapshot_boundaries [10, 10, 20, 30] 4 [9, 9, 9, 9, 9] = Some (c, out)"
    and l: "sint (out ! c) = int 4" by auto
  from r e have "c = 3" "out = [0, 2, 3, 4, 9]" by simp_all
  with l have "sint ([0, 2, 3, 4, 9 :: i32] ! 3) = 4" by simp
  moreover have "find_snapshot_boundaries [10, 10, 20, 30] 0 [9, 9, 9, 9, 9] = Some (0, [9, 9, 9, 9, 9])"
    using find_snapshot_boundaries_partition [of 0 "[10, 10, 20, 30]" "[9, 9, 9, 9, 9]"] by simp
  ultimately show ?thesis using e by simp
qed

section \<open>The claim about the size query\<close>

text \<open>
  What \<^verbatim>\<open>counting_sort_argsort_f64\<close> does. For \<open>n = 0\<close> it sets \<open>min = max = 0\<close> and
  returns 0. For \<open>n > 0\<close> finite timestamps it sets \<open>min\<close> and \<open>max\<close> to the least and the
  greatest of them and returns \<open>floor d + 1\<close>, where \<open>d\<close> is the double \<^verbatim>\<open>max - min\<close> (when
  \<open>d < 2^64 - 1\<close>, so that the cast is defined and the addition does not wrap). In both
  cases \<^verbatim>\<open>out_indices\<close> comes back as it went in.
\<close>

lemma counting_sort_argsort_size_query:
  "counting_sort_argsort_f64 data 0 out_indices = Some (0, 0, 0, out_indices) \<and>
   (0 < n \<and> n \<le> length data \<and>
    sub_f64 (Max (set (take n data))) (Min (set (take n data))) = Some d \<and> d < 2 ^ 64 - 1 \<longrightarrow>
      counting_sort_argsort_f64 data n out_indices =
        Some (Min (set (take n data)), Max (set (take n data)), nat \<lfloor>d\<rfloor> + 1, out_indices))"
proof (intro conjI impI)
  show "counting_sort_argsort_f64 data 0 out_indices = Some (0, 0, 0, out_indices)"
    by (simp add: counting_sort_argsort_f64_def)
next
  let ?S = "set (take n data)"
  assume a: "0 < n \<and> n \<le> length data \<and> sub_f64 (Max ?S) (Min ?S) = Some d \<and> d < 2 ^ 64 - 1"
  then have n: "0 < n" "n \<le> length data" and s: "sub_f64 (Max ?S) (Min ?S) = Some d"
    and d: "d < 2 ^ 64 - 1" by simp_all
  have "data ! 0 \<in> ?S" using n by (auto simp: in_set_conv_nth)
  then have "Min ?S \<le> data ! 0" "data ! 0 \<le> Max ?S" by simp_all
  then have "Min ?S \<le> Max ?S" by simp
  from sub_f64_mono [OF order_refl this s] have lo: "0 \<le> d" by auto
  have ts: "to_size_t d = Some (nat \<lfloor>d\<rfloor>)"
    using lo d by (simp add: to_size_t_def)
  have "\<lfloor>d\<rfloor> < 2 ^ 64 - 1"
    using d by (simp add: floor_less_iff)
  then have "nat \<lfloor>d\<rfloor> + 1 < 2 ^ 64" by (simp; linarith)
  then have "(nat \<lfloor>d\<rfloor> + 1) mod 2 ^ 64 = nat \<lfloor>d\<rfloor> + 1"
    by (rule mod_less)
  then show "counting_sort_argsort_f64 data n out_indices =
        Some (Min ?S, Max ?S, nat \<lfloor>d\<rfloor> + 1, out_indices)"
    by (simp add: argsort_value [OF n] s ts)
qed

text \<open>
  Claim C3 (the sort operation writes the sorting permutation) fails on the code. The
  comment of \<^verbatim>\<open>counting_sort_argsort_f64\<close> declares \<^verbatim>\<open>out_indices\<close> as the sorted indices it
  puts out, and the comment that closes its body announces the output of the sorted
  index, but the body stops after computing the range and never assigns to
  \<^verbatim>\<open>out_indices\<close>. On the specification's example the minimum, the maximum and the range
  are as claimed, and the index buffer comes back as it went in: its content is not a
  permutation of \<open>[0, 4)\<close>, where the claim expects \<open>[1, 3, 2, 0]\<close>.
\<close>

theorem counting_sort_argsort_writes_no_permutation:
  "counting_sort_argsort_f64 [30, 10, 20, 10] 4 [7, 7, 7, 7] = Some (10, 30, 21, [7, 7, 7, 7]) \<and>
   \<not> is_permutation 4 [7, 7, 7, 7]"
proof -
  have d: "sub_f64 30 10 = Some 20" by code_simp
  show ?thesis
    by (simp add: counting_sort_argsort_f64_def minmax_step_def rd_def d to_size_t_def is_permutation_def
        upt_conv_Cons)
qed

section \<open>The decoder on a truncated stream\<close>

lemma cut_short_refl: "cut_short r r"
  by (simp add: cut_short_def)

lemma cut_short_then_read:
  assumes "cut_short a a'" and "\<And>x. cut_short (f x) (f' x)"
  shows "cut_short (then_read a f) (then_read a' f')"
  using assms by (cases a; cases a') (auto simp: cut_short_def)

lemma READ_BIT_cut: "k \<le> l \<Longrightarrow> cut_short (READ_BIT buffer k cur) (READ_BIT buffer l cur)"
  by (cases cur) (simp add: cut_short_def READ_BIT.simps)

lemma read_loop_cut:
  "k \<le> l \<Longrightarrow> cut_short (read_loop buffer k m v cur) (read_loop buffer l m v cur)"
proof (induction m arbitrary: v cur)
  case 0
  then show ?case by (simp add: cut_short_def)
next
  case (Suc m)
  show ?case
    unfolding read_loop.simps
    by (rule cut_short_then_read [OF READ_BIT_cut [OF Suc.prems]]) (auto simp: Suc.IH [OF Suc.prems])
qed

lemma READ_BITS_cut:
  "k \<le> l \<Longrightarrow> cut_short (READ_BITS buffer k bits cur) (READ_BITS buffer l bits cur)"
  by (simp add: READ_BITS_def read_loop_cut)

lemma cut_short_if:
  assumes "c \<Longrightarrow> cut_short a a'" and "\<not> c \<Longrightarrow> cut_short b b'"
  shows "cut_short (if c then a else b) (if c then a' else b')"
  using assms by simp

lemma cut_short_prod:
  assumes "\<And>a b. cut_short (f a b) (f' a b)"
  shows "cut_short (case x of (a, b) \<Rightarrow> f a b) (case x of (a, b) \<Rightarrow> f' a b)"
  using assms by (cases x) simp

lemma decode_value_cut:
  assumes "k \<le> l"
  shows "cut_short (decode_value buffer k st) (decode_value buffer l st)"
proof -
  obtain cur pv pl pt where st: "st = (cur, pv, pl, pt)" by (cases st)
  note rb = READ_BIT_cut [OF assms] and rbs = READ_BITS_cut [OF assms]
  show ?thesis
    unfolding st decode_value.simps
    by (intro cut_short_refl rb rbs cut_short_then_read cut_short_prod cut_short_if)
qed

lemma decode_loop_grows:
  "decode_loop buffer l m (cur, count, pv, pl, pt, out) = Some (c, out') \<Longrightarrow>
     count \<le> c \<and> c \<le> max count m \<and> length out' = length out \<and> c \<le> max count (length out) \<and>
     take count out' = take count out \<and> drop c out' = drop c out"
proof (induction buffer l m "(cur, count, pv, pl, pt, out)" arbitrary: cur count pv pl pt out
    rule: decode_loop.induct)
  case (1 buffer l m cur count pv pl pt out)
  show ?case
  proof (cases "count < m \<and> fst cur < l")
    case False
    with "1.prems" show ?thesis by (subst (asm) decode_loop.simps) auto
  next
    case True
    show ?thesis
    proof (cases "decode_value buffer l (cur, pv, pl, pt)")
      case Undefined
      with True "1.prems" show ?thesis by (subst (asm) decode_loop.simps) simp
    next
      case Exhausted
      with True "1.prems" show ?thesis by (subst (asm) decode_loop.simps) auto
    next
      case (Got st')
      obtain cur' pv' pl' pt' where st': "st' = (cur', pv', pl', pt')" by (cases st')
      show ?thesis
      proof (cases "wr out count pv'")
        case None
        with True Got st' "1.prems" show ?thesis by (subst (asm) decode_loop.simps) simp
      next
        case (Some out1)
        then have o1: "count < length out" "out1 = out[count := pv']"
          by (auto simp: wr_def split: if_splits)
        from "1.prems" True Got st' Some
        have r: "decode_loop buffer l m (cur', count + 1, pv', pl', pt', out1) = Some (c, out')"
          by (subst (asm) decode_loop.simps) simp
        from "1.hyps" [OF True Got [unfolded st'] refl refl refl Some r]
        have ih: "count + 1 \<le> c" "c \<le> max (count + 1) m" "length out' = length out1"
          "c \<le> max (count + 1) (length out1)"
          "take (count + 1) out' = take (count + 1) out1" "drop c out' = drop c out1"
          by simp_all
        have "take count out' = take count (take (count + 1) out')" by (simp add: min_def)
        also have "\<dots> = take count out" unfolding ih(5) o1(2) by (simp add: min_def)
        finally have t: "take count out' = take count out" .
        have d: "drop c out' = drop c out" using ih(1,6) o1(2) by simp
        show ?thesis using ih(1,2,3,4) True o1 t d by auto
      qed
    qed
  qed
qed

lemma decode_loop_cut:
  "decode_loop buffer l m (cur, count, pv, pl, pt, out) = Some (c2, o2) \<Longrightarrow> k \<le> l \<Longrightarrow>
     \<exists>c1 o1. decode_loop buffer k m (cur, count, pv, pl, pt, out) = Some (c1, o1) \<and>
        c1 \<le> c2 \<and> take c1 o1 = take c1 o2 \<and> drop c1 o1 = drop c1 out"
proof (induction buffer l m "(cur, count, pv, pl, pt, out)" arbitrary: cur count pv pl pt out
    rule: decode_loop.induct)
  case (1 buffer l m cur count pv pl pt out)
  note full = "1.prems"(1) and kl = "1.prems"(2)
  from decode_loop_grows [OF full] have g: "count \<le> c2" "take count o2 = take count out" by simp_all
  have stop: "\<exists>c1 o1. Some (count, out) = Some (c1, o1) \<and>
        c1 \<le> c2 \<and> take c1 o1 = take c1 o2 \<and> drop c1 o1 = drop c1 out"
    using g by simp
  show ?case
  proof (cases "count < m \<and> fst cur < k")
    case False
    then have "decode_loop buffer k m (cur, count, pv, pl, pt, out) = Some (count, out)"
      by (subst decode_loop.simps) auto
    then show ?thesis using stop by simp
  next
    case True
    with kl have Tl: "count < m \<and> fst cur < l" by auto
    from decode_value_cut [OF kl, of buffer "(cur, pv, pl, pt)"]
    consider "decode_value buffer k (cur, pv, pl, pt) = Exhausted"
      | "decode_value buffer k (cur, pv, pl, pt) = decode_value buffer l (cur, pv, pl, pt)"
      by (auto simp: cut_short_def)
    then show ?thesis
    proof cases
      case 1
      with True have "decode_loop buffer k m (cur, count, pv, pl, pt, out) = Some (count, out)"
        by (subst decode_loop.simps) simp
      then show ?thesis using stop by simp
    next
      case same: 2
      show ?thesis
      proof (cases "decode_value buffer l (cur, pv, pl, pt)")
        case Undefined
        with full Tl show ?thesis by (subst (asm) decode_loop.simps) simp
      next
        case Exhausted
        with same True have "decode_loop buffer k m (cur, count, pv, pl, pt, out) = Some (count, out)"
          by (subst decode_loop.simps) simp
        then show ?thesis using stop by simp
      next
        case (Got st')
        obtain cur' pv' pl' pt' where st': "st' = (cur', pv', pl', pt')" by (cases st')
        show ?thesis
        proof (cases "wr out count pv'")
          case None
          with full Tl Got st' show ?thesis by (subst (asm) decode_loop.simps) simp
        next
          case (Some out1)
          then have o1: "count < length out" "out1 = out[count := pv']"
            by (auto simp: wr_def split: if_splits)
          from full Tl Got st' Some
          have r: "decode_loop buffer l m (cur', count + 1, pv', pl', pt', out1) = Some (c2, o2)"
            by (subst (asm) decode_loop.simps) simp
          from "1.hyps" [OF Tl Got [unfolded st'] refl refl refl Some r kl]
          obtain c1 o1' where
            ih: "decode_loop buffer k m (cur', count + 1, pv', pl', pt', out1) = Some (c1, o1')"
              "c1 \<le> c2" "take c1 o1' = take c1 o2" "drop c1 o1' = drop c1 out1" by blast
          from decode_loop_grows [OF ih(1)] have "count + 1 \<le> c1" by simp
          then have "drop c1 out1 = drop c1 out" using o1(2) by simp
          moreover have "decode_loop buffer k m (cur, count, pv, pl, pt, out) = Some (c1, o1')"
            using True same Got st' Some ih(1) by (subst decode_loop.simps) simp
          ultimately show ?thesis using ih by simp
        qed
      qed
    qed
  qed
qed

lemma READ_BIT_take: "READ_BIT (take k buffer) k = READ_BIT buffer k"
proof
  fix cur show "READ_BIT (take k buffer) k cur = READ_BIT buffer k cur"
    by (cases cur) (auto simp: rd_def READ_BIT.simps)
qed

lemma read_loop_take: "read_loop (take k buffer) k m = read_loop buffer k m"
proof (induction m)
  case 0
  show ?case by (intro ext) simp
next
  case (Suc m)
  show ?case by (intro ext) (simp add: READ_BIT_take Suc)
qed

lemma READ_BITS_take: "READ_BITS (take k buffer) k = READ_BITS buffer k"
  by (intro ext) (simp add: READ_BITS_def read_loop_take)

lemma decode_value_take: "decode_value (take k buffer) k = decode_value buffer k"
proof
  fix st show "decode_value (take k buffer) k st = decode_value buffer k st"
    by (cases st) (simp only: decode_value.simps READ_BIT_take READ_BITS_take)
qed

lemma decode_loop_take:
  "decode_loop (take k buffer) k m st = decode_loop buffer k m st"
proof (induction "take k buffer" k m st rule: decode_loop.induct)
  case (1 k m cur count pv pl pt out)
  show ?case
  proof (cases "count < m \<and> fst cur < k")
    case False
    then show ?thesis
      by (subst decode_loop.simps, subst (2) decode_loop.simps) auto
  next
    case True
    show ?thesis
    proof (cases "decode_value buffer k (cur, pv, pl, pt)")
      case Undefined
      with True show ?thesis
        by (subst decode_loop.simps, subst (2) decode_loop.simps) (simp add: decode_value_take)
    next
      case Exhausted
      with True show ?thesis
        by (subst decode_loop.simps, subst (2) decode_loop.simps) (simp add: decode_value_take)
    next
      case (Got st')
      obtain cur' pv' pl' pt' where st': "st' = (cur', pv', pl', pt')" by (cases st')
      show ?thesis
      proof (cases "wr out count pv'")
        case None
        with True Got st' show ?thesis
          by (subst decode_loop.simps, subst (2) decode_loop.simps) (simp add: decode_value_take)
      next
        case (Some out1)
        have g: "decode_value (take k buffer) k (cur, pv, pl, pt) = Got (cur', pv', pl', pt')"
          using Got st' by (simp add: decode_value_take)
        from "1.hyps" [OF True g refl refl refl Some]
        show ?thesis using True Got st' Some
          by (subst decode_loop.simps, subst (2) decode_loop.simps) (simp add: decode_value_take)
      qed
    qed
  qed
qed

lemma gorilla_decompress_take:
  "gorilla_decompress_f64 (take k buffer) k out m = gorilla_decompress_f64 buffer k out m"
  by (simp only: gorilla_decompress_f64_def READ_BITS_take decode_loop_take)

lemma gorilla_decompress_short:
  "buffer_len < 8 \<Longrightarrow> gorilla_decompress_f64 buffer buffer_len out_data max_count = Some (0, out_data)"
  by (simp add: gorilla_decompress_f64_def)

lemma gorilla_decompress_prefix:
  assumes full: "gorilla_decompress_f64 buffer l out_data m = Some (c2, o2)" and kl: "k \<le> l"
  shows "\<exists>c1 o1. gorilla_decompress_f64 (take k buffer) k out_data m = Some (c1, o1) \<and>
           c1 \<le> c2 \<and> take c1 o1 = take c1 o2 \<and> drop c1 o1 = drop c1 out_data"
proof -
  have stop: "\<exists>c1 o1. Some (0, out_data) = Some (c1, o1) \<and>
           c1 \<le> c2 \<and> take c1 o1 = take c1 o2 \<and> drop c1 o1 = drop c1 out_data"
    by simp
  have "\<exists>c1 o1. gorilla_decompress_f64 buffer k out_data m = Some (c1, o1) \<and>
           c1 \<le> c2 \<and> take c1 o1 = take c1 o2 \<and> drop c1 o1 = drop c1 out_data"
  proof (cases "k < 8")
    case True
    then show ?thesis using stop by (simp add: gorilla_decompress_short)
  next
    case False
    with kl have l8: "\<not> l < 8" by simp
    from READ_BITS_cut [OF kl, of buffer 64 "(0, 0)"]
    consider "READ_BITS buffer k 64 (0, 0) = Exhausted"
      | "READ_BITS buffer k 64 (0, 0) = READ_BITS buffer l 64 (0, 0)"
      by (auto simp: cut_short_def)
    then show ?thesis
    proof cases
      case 1
      then show ?thesis using False stop by (simp add: gorilla_decompress_f64_def)
    next
      case same: 2
      show ?thesis
      proof (cases "READ_BITS buffer l 64 (0, 0)")
        case Undefined
        with full l8 show ?thesis by (simp add: gorilla_decompress_f64_def)
      next
        case Exhausted
        with same False stop show ?thesis by (simp add: gorilla_decompress_f64_def)
      next
        case (Got r)
        obtain v cur where r: "r = (v, cur)" by (cases r)
        show ?thesis
        proof (cases "wr out_data 0 v")
          case None
          with full l8 Got r show ?thesis by (simp add: gorilla_decompress_f64_def)
        next
          case (Some out1)
          then have o1: "out1 = out_data[0 := v]" by (auto simp: wr_def split: if_splits)
          from full l8 Got r Some
          have lf: "decode_loop buffer l m (cur, 1, v, - 1, 0, out1) = Some (c2, o2)"
            by (simp add: gorilla_decompress_f64_def)
          from decode_loop_cut [OF lf kl] obtain c1 o1' where
            c: "decode_loop buffer k m (cur, 1, v, - 1, 0, out1) = Some (c1, o1')"
              "c1 \<le> c2" "take c1 o1' = take c1 o2" "drop c1 o1' = drop c1 out1" by blast
          from decode_loop_grows [OF c(1)] have "1 \<le> c1" by simp
          then have "drop c1 out1 = drop c1 out_data" unfolding o1 by simp
          moreover have "gorilla_decompress_f64 buffer k out_data m = Some (c1, o1')"
            using False same Got r Some c(1) by (simp add: gorilla_decompress_f64_def)
          ultimately show ?thesis using c by simp
        qed
      qed
    qed
  qed
  then show ?thesis by (simp only: gorilla_decompress_take)
qed

lemma gorilla_decompress_count_le:
  assumes "gorilla_decompress_f64 buffer buffer_len out_data max_count = Some (c, out)"
  shows "c \<le> max 1 max_count \<and> c \<le> length out_data \<and> length out = length out_data \<and>
         drop c out = drop c out_data"
proof (cases "buffer_len < 8")
  case True
  with assms show ?thesis by (simp add: gorilla_decompress_short)
next
  case False
  show ?thesis
  proof (cases "READ_BITS buffer buffer_len 64 (0, 0)")
    case Undefined
    with assms False show ?thesis by (simp add: gorilla_decompress_f64_def)
  next
    case Exhausted
    with assms False show ?thesis by (simp add: gorilla_decompress_f64_def)
  next
    case (Got r)
    obtain v cur where r: "r = (v, cur)" by (cases r)
    show ?thesis
    proof (cases "wr out_data 0 v")
      case None
      with assms False Got r show ?thesis by (simp add: gorilla_decompress_f64_def)
    next
      case (Some out1)
      then have o1: "0 < length out_data" "out1 = out_data[0 := v]"
        by (auto simp: wr_def split: if_splits)
      from assms False Got r Some
      have "decode_loop buffer buffer_len max_count (cur, 1, v, - 1, 0, out1) = Some (c, out)"
        by (simp add: gorilla_decompress_f64_def)
      from decode_loop_grows [OF this] o1 show ?thesis by auto
    qed
  qed
qed

section \<open>The claims about the Gorilla codec\<close>



text \<open>
  Claim C1 (round trip) fails on the code. When the XOR of two consecutive values has
  both its top and its bottom bit set, the encoder opens a block with 64 meaningful
  bits and writes that length with \<^verbatim>\<open>WRITE_BITS(meaningful, 6)\<close>: six bits hold 0..63,
  so 64 is written as 0. The decoder reads \<open>meaningful = 0\<close>, sets
  \<open>prev_trailing = 64 - 0 - 0 = 64\<close> and evaluates \<^verbatim>\<open>READ_BITS(0) << 64\<close>, a shift by the
  width of the type: undefined in C (on x86-64 and AArch64 it yields 0, so the decoder
  repeats the previous value and has lost its place in the stream). The sequence is
  \<open>[1.0, -1.0000000000000002]\<close>. Sequences in which no such XOR occurs do round-trip
  (lemma \<open>gorilla_round_trip\<close>).
\<close>

theorem gorilla_round_trip_fails:
  "gorilla_compress_f64 [0x3FF0000000000000, 0xBFF0000000000001] 2 (replicate 18 0)
     = Some (18, [0x3F, 0xF0, 0, 0, 0, 0, 0, 0, 0xC0, 0x02, 0, 0, 0, 0, 0, 0, 0, 0x04]) \<and>
   gorilla_decompress_f64 [0x3F, 0xF0, 0, 0, 0, 0, 0, 0, 0xC0, 0x02, 0, 0, 0, 0, 0, 0, 0, 0x04] 18 [0, 0] 2
     = None"
  by code_simp

text \<open>
  Claim C2 (nine bytes per value) fails on the code. A value that opens a new block
  costs \<open>1 + 1 + 6 + 6 + meaningful\<close> bits, up to 78, more than the 72 bits of nine
  bytes, and two windows that do not contain each other make every value open a new
  block. For \<open>[0.0, 2.0000000000000004, -2.0000000000000013]\<close> the stream has
  \<open>64 + 77 + 77 = 218\<close> bits: with the documented buffer of \<open>3 * 9 = 27\<close> bytes the
  encoder writes past the end, and with room it returns 28. Ten bytes per value are
  enough for every input (lemma \<open>gorilla_compress_size\<close>).
\<close>

theorem gorilla_compress_exceeds_nine_bytes:
  "gorilla_compress_f64 [0, 0x4000000000000001, 0xC000000000000003] 3 (replicate 27 0) = None \<and>
   map_option fst (gorilla_compress_f64 [0, 0x4000000000000001, 0xC000000000000003] 3 (replicate 28 0))
     = Some 28"
  by code_simp

text \<open>
  Claim C8 (the count never exceeds \<^verbatim>\<open>max_count\<close>) fails on the code for
  \<open>max_count = 0\<close>: once the buffer has 8 bytes the first value is stored and counted
  before \<^verbatim>\<open>max_count\<close> is looked at. With room for one value the decoder returns 1; with
  the empty output buffer that \<open>max_count = 0\<close> announces it writes outside it. For
  \<open>max_count \<ge> 1\<close> the count is at most \<^verbatim>\<open>max_count\<close> (lemma
  \<open>gorilla_decompress_count_le\<close>).
\<close>

theorem gorilla_decompress_ignores_zero_max_count:
  "gorilla_decompress_f64 (replicate 8 0) 8 [7] 0 = Some (1, [0]) \<and>
   gorilla_decompress_f64 (replicate 8 0) 8 [] 0 = None"
  by code_simp

section \<open>The bit stream\<close>

lemma cur_of_Suc:
  "(if p mod 8 + 1 = 8 then (p div 8 + 1, 0) else (p div 8, p mod 8 + 1)) = cur_of (Suc p)"
  by (auto simp: cur_of_def mod_Suc div_Suc)

lemma READ_BIT_stream:
  assumes "p div 8 < l" "l \<le> length buffer"
  shows "READ_BIT buffer l (cur_of p) = Got (sbit buffer p, cur_of (Suc p))"
proof -
  have "rd buffer (p div 8) = Some (buffer ! (p div 8))" using assms by (simp add: rd_def)
  then have "READ_BIT buffer l (p div 8, p mod 8) =
      Got (sbit buffer p, (if p mod 8 + 1 = 8 then (p div 8 + 1, 0) else (p div 8, p mod 8 + 1)))"
    using assms(1) by (simp add: sbit_def Let_def READ_BIT.simps)
  then show ?thesis unfolding cur_of_Suc by (simp only: cur_of_def)
qed

lemma read_step_word:
  "push_bit m (push_bit 1 acc OR of_bool (bit v m)) OR take_bit m v
     = push_bit (Suc m) acc OR take_bit (Suc m) (v :: u64)"
  by (rule bit_eqI) (auto simp: bit_simps less_Suc_eq)

lemma read_loop_stream:
  assumes "p + m \<le> 8 * l" "l \<le> length buffer"
    and "\<forall>i<m. sbit buffer (p + i) = bit v (m - 1 - i)"
  shows "read_loop buffer l m acc (cur_of p) = Got (push_bit m acc OR take_bit m v, cur_of (p + m))"
  using assms
proof (induction m arbitrary: p acc)
  case 0
  then show ?case by simp
next
  case (Suc m)
  have pl: "p div 8 < l" using Suc.prems(1) by auto
  have b0: "sbit buffer p = bit v m" using Suc.prems(3) [rule_format, of 0] by simp
  have rest: "\<forall>i<m. sbit buffer (Suc p + i) = bit v (m - 1 - i)"
  proof (intro allI impI)
    fix i assume "i < m"
    then show "sbit buffer (Suc p + i) = bit v (m - 1 - i)"
      using Suc.prems(3) [rule_format, of "Suc i"] by simp
  qed
  have "read_loop buffer l (Suc m) acc (cur_of p)
          = read_loop buffer l m (push_bit 1 acc OR of_bool (bit v m)) (cur_of (Suc p))"
    by (simp only: read_loop.simps READ_BIT_stream [OF pl Suc.prems(2)] b0 then_read.simps prod.case)
  also have "\<dots> = Got (push_bit m (push_bit 1 acc OR of_bool (bit v m)) OR take_bit m v, cur_of (Suc p + m))"
    by (rule Suc.IH [OF _ Suc.prems(2) rest]) (use Suc.prems(1) in simp)
  also have "\<dots> = Got (push_bit (Suc m) acc OR take_bit (Suc m) v, cur_of (p + Suc m))"
    by (simp only: read_step_word add_Suc add_Suc_right)
  finally show ?case .
qed

lemma READ_BITS_stream:
  assumes "p + m \<le> 8 * l" "l \<le> length buffer"
    and "\<forall>i<m. sbit buffer (p + i) = msb_bits m v ! i"
  shows "READ_BITS buffer l (int m) (cur_of p) = Got (take_bit m v, cur_of (p + m))"
proof -
  have "\<forall>i<m. sbit buffer (p + i) = bit v (m - 1 - i)"
    using assms(3) by (simp add: msb_bits_def rev_nth)
  from read_loop_stream [OF assms(1,2) this, of 0] show ?thesis
    by (simp add: READ_BITS_def)
qed

section \<open>The bit writer\<close>

lemma same_byte_less: "q div 8 = p div 8 \<Longrightarrow> q < p \<longleftrightarrow> q mod 8 < p mod 8" for p q :: nat
  using div_mult_mod_eq [of q 8] div_mult_mod_eq [of p 8] by (metis add_less_cancel_left)

lemma same_byte_le: "q div 8 = p div 8 \<Longrightarrow> p \<le> q \<longleftrightarrow> p mod 8 \<le> q mod 8" for p q :: nat
  using same_byte_less [of q p] by (simp add: not_less [symmetric])

lemma Suc_same_byte: "Suc p mod 8 \<noteq> 0 \<Longrightarrow> Suc p div 8 = p div 8 \<and> Suc p mod 8 = Suc (p mod 8)"
  by (simp add: div_Suc mod_Suc split: if_splits)

lemma cap_first: "(p + Suc k + 7) div 8 \<le> n \<Longrightarrow> p div 8 < n" for p k n :: nat
proof -
  assume a: "(p + Suc k + 7) div 8 \<le> n"
  have "p + 8 \<le> p + Suc k + 7" by simp
  then have "(p + 8) div 8 \<le> (p + Suc k + 7) div 8" by (rule div_le_mono)
  then show ?thesis using a by simp
qed

lemma bit_single: "k < 8 \<Longrightarrow> bit (push_bit k (1 :: u8)) j \<longleftrightarrow> j = k"
  by (auto simp: bit_simps)

lemma WRITE_BIT_value:
  assumes "p div 8 < length buf"
  shows "WRITE_BIT b (buf, cur_of p) =
           Some (buf[p div 8 := (if p mod 8 = 0 then 0 else buf ! (p div 8))
                                  OR (if b then push_bit (7 - p mod 8) 1 else 0)],
                 cur_of (Suc p))"
proof -
  have "WRITE_BIT b (buf, p div 8, p mod 8) =
           Some (buf[p div 8 := (if p mod 8 = 0 then 0 else buf ! (p div 8))
                                  OR (if b then push_bit (7 - p mod 8) 1 else 0)],
                 (if p mod 8 + 1 = 8 then (p div 8 + 1, 0) else (p div 8, p mod 8 + 1)))"
    using assms by (simp add: wr_def rd_def Let_def WRITE_BIT.simps)
  then show ?thesis unfolding cur_of_Suc by (simp only: cur_of_def)
qed

lemma WRITE_BIT_stream:
  assumes cap: "p div 8 < length buf" and clear: "tail_clear buf p"
  shows "\<exists>buf'. WRITE_BIT b (buf, cur_of p) = Some (buf', cur_of (Suc p)) \<and>
           length buf' = length buf \<and> sbit buf' p = b \<and>
           (\<forall>q<p. sbit buf' q = sbit buf q) \<and> tail_clear buf' (Suc p)"
proof -
  define x where "x = (if p mod 8 = 0 then 0 else buf ! (p div 8)) OR (if b then push_bit (7 - p mod 8) 1 else 0)"
  let ?buf = "buf[p div 8 := x]"
  have xbit: "bit x j \<longleftrightarrow> (p mod 8 \<noteq> 0 \<and> bit (buf ! (p div 8)) j) \<or> (b \<and> j = 7 - p mod 8)" for j
    by (auto simp: x_def bit_or_iff bit_single simp del: push_bit_of_1)
  have old: "\<not> bit (buf ! (p div 8)) (7 - s)" if "p mod 8 \<le> s" "s < 8" "p mod 8 \<noteq> 0" for s
  proof -
    let ?q = "8 * (p div 8) + s"
    have dm: "?q div 8 = p div 8" "?q mod 8 = s" using that(2) by simp_all
    have "p \<le> ?q" using same_byte_le [OF dm(1)] dm(2) that(1) by simp
    then have "\<not> sbit buf ?q" using clear that(3) dm(1) by (simp add: tail_clear_def)
    then show ?thesis using that(2) by (simp add: sbit_def)
  qed
  have here: "sbit ?buf p = b"
    using cap old [of "p mod 8"] by (auto simp: sbit_def xbit)
  have before: "sbit ?buf q = sbit buf q" if q: "q < p" for q
  proof (cases "q div 8 = p div 8")
    case False
    then show ?thesis by (simp add: sbit_def)
  next
    case True
    have "q mod 8 < p mod 8" using same_byte_less [OF True] q by simp
    then have "p mod 8 \<noteq> 0" "7 - q mod 8 \<noteq> 7 - p mod 8" by simp_all
    then show ?thesis using cap True by (simp add: sbit_def xbit)
  qed
  have after: "tail_clear ?buf (Suc p)"
    unfolding tail_clear_def
  proof (intro allI impI)
    fix q assume q: "Suc p mod 8 \<noteq> 0 \<and> q div 8 = Suc p div 8 \<and> Suc p \<le> q"
    then have sp: "Suc p div 8 = p div 8" "Suc p mod 8 = Suc (p mod 8)"
      using Suc_same_byte [of p] by simp_all
    have same: "q div 8 = p div 8" using q sp by simp
    have "Suc p mod 8 \<le> q mod 8" using same_byte_le [of q "Suc p"] q by simp
    then have lt: "p mod 8 < q mod 8" using sp by simp
    have "\<not> bit x (7 - q mod 8)"
      using lt old [of "q mod 8"] by (auto simp: xbit)
    then show "\<not> sbit ?buf q" using cap same by (simp add: sbit_def)
  qed
  show ?thesis
    using WRITE_BIT_value [OF cap, of b] here before after by (simp add: x_def)
qed

lemma write_bits_stream:
  assumes "(p + length bs + 7) div 8 \<le> length buf" and "tail_clear buf p"
  shows "\<exists>buf'. for_each bs WRITE_BIT (buf, cur_of p) = Some (buf', cur_of (p + length bs)) \<and>
           length buf' = length buf \<and> (\<forall>i<length bs. sbit buf' (p + i) = bs ! i) \<and>
           (\<forall>q<p. sbit buf' q = sbit buf q) \<and> tail_clear buf' (p + length bs)"
  using assms
proof (induction bs arbitrary: p buf)
  case Nil
  then show ?case by simp
next
  case (Cons b bs)
  have cap: "p div 8 < length buf" using Cons.prems(1) cap_first [of p "length bs" "length buf"] by simp
  from WRITE_BIT_stream [OF cap Cons.prems(2), of b] obtain buf1 where
    w: "WRITE_BIT b (buf, cur_of p) = Some (buf1, cur_of (Suc p))" "length buf1 = length buf"
      "sbit buf1 p = b" "\<forall>q<p. sbit buf1 q = sbit buf q" "tail_clear buf1 (Suc p)" by blast
  have cap1: "(Suc p + length bs + 7) div 8 \<le> length buf1" using Cons.prems(1) w(2) by simp
  from Cons.IH [OF cap1 w(5)] obtain buf2 where
    r: "for_each bs WRITE_BIT (buf1, cur_of (Suc p)) = Some (buf2, cur_of (Suc p + length bs))"
      "length buf2 = length buf1" "\<forall>i<length bs. sbit buf2 (Suc p + i) = bs ! i"
      "\<forall>q<Suc p. sbit buf2 q = sbit buf1 q" "tail_clear buf2 (Suc p + length bs)" by blast
  have bits: "\<forall>i<length (b # bs). sbit buf2 (p + i) = (b # bs) ! i"
  proof (intro allI impI)
    fix i assume i: "i < length (b # bs)"
    show "sbit buf2 (p + i) = (b # bs) ! i"
    proof (cases i)
      case 0
      then show ?thesis using r(4) w(3) by simp
    next
      case (Suc j)
      then show ?thesis using r(3) i by simp
    qed
  qed
  have "for_each (b # bs) WRITE_BIT (buf, cur_of p) = Some (buf2, cur_of (p + length (b # bs)))"
    using w(1) r(1) by simp
  moreover have "\<forall>q<p. sbit buf2 q = sbit buf q" using r(4) w(4) by simp
  ultimately show ?case using r(2,5) w(2) bits by simp
qed

section \<open>Leading and trailing zeros\<close>

lemma takeWhile_length_props:
  "(\<forall>j<length (takeWhile P xs). P (xs ! j)) \<and>
   (length (takeWhile P xs) < length xs \<longrightarrow> \<not> P (xs ! length (takeWhile P xs)))"
  using takeWhile_nth [of _ P xs] nth_length_takeWhile [of P xs]
  by (metis nth_mem set_takeWhileD)

lemma word_ne_0_bit:
  assumes "(x :: u64) \<noteq> 0"
  shows "\<exists>i<64. bit x i"
proof (rule ccontr)
  assume "\<not> (\<exists>i<64. bit x i)"
  then have "x = 0" by (intro bit_word_eqI) simp
  with assms show False by simp
qed

lemma ctz64_props:
  assumes "x \<noteq> 0"
  shows "0 \<le> ctz64 x \<and> ctz64 x \<le> 63 \<and> bit x (nat (ctz64 x)) \<and> (\<forall>i<nat (ctz64 x). \<not> bit x i)"
proof -
  define xs where "xs = [0..<64::nat]"
  have len: "length xs = 64" and nth: "\<And>j. j < 64 \<Longrightarrow> xs ! j = j"
    by (simp_all add: xs_def del: upt_rec_numeral)
  let ?P = "\<lambda>i. \<not> bit x i"
  define t where "t = length (takeWhile ?P xs)"
  have def: "ctz64 x = int t" using assms by (simp only: ctz64_def t_def xs_def if_False)
  note tw = takeWhile_length_props [of ?P xs, folded t_def]
  have le: "t \<le> 64" using length_takeWhile_le [of ?P xs] by (simp add: t_def len)
  from word_ne_0_bit [OF assms] obtain i where i: "i < 64" "bit x i" by blast
  have "t \<noteq> 64"
  proof
    assume "t = 64"
    with tw i(1) have "?P (xs ! i)" by simp
    with i show False by (simp add: nth)
  qed
  with le have lt: "t < 64" by simp
  have low: "\<forall>j<t. \<not> bit x j"
  proof (intro allI impI)
    fix j assume j: "j < t"
    with tw have "?P (xs ! j)" by blast
    then show "\<not> bit x j" using j lt by (simp add: nth)
  qed
  have "\<not> ?P (xs ! t)" using tw lt by (simp add: len)
  then have at: "bit x t" using lt by (simp add: nth)
  show ?thesis using lt at low by (simp add: def)
qed

lemma clz64_props:
  assumes "x \<noteq> 0"
  shows "0 \<le> clz64 x \<and> clz64 x \<le> 63 \<and> bit x (63 - nat (clz64 x)) \<and>
         (\<forall>i. 63 - nat (clz64 x) < i \<longrightarrow> \<not> bit x i)"
proof -
  define xs where "xs = rev [0..<64::nat]"
  have len: "length xs = 64" and nth: "\<And>j. j < 64 \<Longrightarrow> xs ! j = 63 - j"
    by (simp_all add: xs_def rev_nth del: upt_rec_numeral)
  let ?P = "\<lambda>i. \<not> bit x i"
  define c where "c = length (takeWhile ?P xs)"
  have def: "clz64 x = int c" using assms by (simp only: clz64_def c_def xs_def if_False)
  note tw = takeWhile_length_props [of ?P xs, folded c_def]
  have le: "c \<le> 64" using length_takeWhile_le [of ?P xs] by (simp add: c_def len)
  from word_ne_0_bit [OF assms] obtain i where i: "i < 64" "bit x i" by blast
  have "c \<noteq> 64"
  proof
    assume "c = 64"
    with tw have "?P (xs ! (63 - i))" using i(1) by simp
    with i show False by (simp add: nth)
  qed
  with le have lt: "c < 64" by simp
  have high: "\<forall>i. 63 - c < i \<longrightarrow> \<not> bit x i"
  proof (intro allI impI)
    fix i assume hi: "63 - c < i"
    show "\<not> bit x i"
    proof (cases "i < 64")
      case False
      then show ?thesis using bit_imp_le_length [of x i] by auto
    next
      case True
      then have j: "63 - i < c" using hi by simp
      with tw have "?P (xs ! (63 - i))" by blast
      then show ?thesis using True by (simp add: nth)
    qed
  qed
  have "\<not> ?P (xs ! c)" using tw lt by (simp add: len)
  then have at: "bit x (63 - c)" using lt by (simp add: nth)
  show ?thesis using lt at high by (simp add: def)
qed

lemma clz_ctz_sum:
  assumes "x \<noteq> 0"
  shows "clz64 x + ctz64 x \<le> 63"
proof -
  note c = clz64_props [OF assms] and t = ctz64_props [OF assms]
  have "\<not> (63 - nat (clz64 x) < nat (ctz64 x))"
    using c t by blast
  then show ?thesis using c t by linarith
qed

lemma full_window_iff:
  assumes "x \<noteq> 0"
  shows "clz64 x = 0 \<and> ctz64 x = 0 \<longleftrightarrow> bit x 63 \<and> bit x 0"
proof
  assume "clz64 x = 0 \<and> ctz64 x = 0"
  then show "bit x 63 \<and> bit x 0"
    using clz64_props [OF assms] ctz64_props [OF assms] by simp
next
  assume b: "bit x 63 \<and> bit x 0"
  note c = clz64_props [OF assms] and t = ctz64_props [OF assms]
  have "\<not> 0 < nat (ctz64 x)" using t b by blast
  moreover have "\<not> 63 - nat (clz64 x) < 63" using c b by blast
  ultimately show "clz64 x = 0 \<and> ctz64 x = 0" using c t by linarith
qed

text \<open>A window \<open>(pl, pt)\<close> that contains the set bits of \<open>x\<close> loses nothing.\<close>

lemma window_restore:
  assumes x: "x \<noteq> 0" and w: "0 \<le> pl" "0 \<le> pt" "pl \<le> clz64 x" "pt \<le> ctz64 x"
  shows "push_bit (nat pt) (take_bit (nat (64 - pl - pt)) (drop_bit (nat pt) x)) = x"
proof (rule bit_word_eqI)
  fix i assume i: "i < LENGTH(64)"
  note c = clz64_props [OF x] and t = ctz64_props [OF x]
  have lo: "bit x i \<Longrightarrow> nat pt \<le> i"
    using t w by (metis le_less_linear less_le_trans nat_mono not_less)
  have hi: "bit x i \<Longrightarrow> i - nat pt < nat (64 - pl - pt)"
  proof -
    assume bx: "bit x i"
    then have "\<not> 63 - nat (clz64 x) < i" using c by blast
    then have "int i \<le> 63 - clz64 x" using c by linarith
    then show ?thesis using lo [OF bx] w by linarith
  qed
  show "bit (push_bit (nat pt) (take_bit (nat (64 - pl - pt)) (drop_bit (nat pt) x))) i = bit x i"
    using i lo hi by (auto simp: bit_simps)
qed

section \<open>The encoder writes \<open>value_bits\<close>\<close>

lemma for_each_map: "for_each (map f xs) body s = for_each xs (\<lambda>x. body (f x)) s"
  by (induction xs arbitrary: s) (auto split: option.splits)

lemma for_each_single: "for_each [b] body s = body b s"
  by (simp split: option.splits)

lemma WRITE_BITS_as_bits:
  "bits \<le> 64 \<Longrightarrow> WRITE_BITS v bits w = for_each (msb_bits (nat bits) v) WRITE_BIT w"
  by (simp add: WRITE_BITS_def msb_bits_def for_each_map)

lemma block_ok_next: "block_ok d \<Longrightarrow> block_ok (next_block v pv d)"
proof -
  assume d: "block_ok d"
  show ?thesis
  proof (cases "v XOR pv = 0 \<or> reuses (v XOR pv) d")
    case True
    then show ?thesis using d by (auto simp: next_block_def)
  next
    case False
    then have x: "v XOR pv \<noteq> 0" by simp
    show ?thesis
      using False clz64_props [OF x] ctz64_props [OF x] clz_ctz_sum [OF x]
      by (simp add: next_block_def block_ok_def Let_def)
  qed
qed

lemma encode_value_bits:
  assumes d: "block_ok (pl, pt)"
  shows "encode_value v (w, pv, pl, pt) =
           (case for_each (value_bits v pv (pl, pt)) WRITE_BIT w of
              None \<Rightarrow> None
            | Some w' \<Rightarrow> Some (w', v, next_block v pv (pl, pt)))"
proof (cases "v XOR pv = 0")
  case True
  then show ?thesis
    by (cases "WRITE_BIT False w")
       (simp_all add: encode_value.simps value_bits_def next_block_def)
next
  case x: False
  note c = clz64_props [OF x] and t = ctz64_props [OF x] and s = clz_ctz_sum [OF x]
  show ?thesis
  proof (cases "reuses (v XOR pv) (pl, pt)")
    case True
    then have r: "pl \<noteq> - 1" "pl \<le> clz64 (v XOR pv)" "pt \<le> ctz64 (v XOR pv)"
      by (simp_all add: reuses_def)
    then have yr: "(pl \<noteq> - 1 \<and> pl \<le> clz64 (v XOR pv) \<and> pt \<le> ctz64 (v XOR pv)) = True"
      by simp
    with d have w: "0 \<le> pl" "0 \<le> pt" "pl + pt \<le> 63" by (auto simp: block_ok_def)
    have sh: "shr64 (v XOR pv) pt = Some (drop_bit (nat pt) (v XOR pv))"
      using w r t by (simp add: shr64_def)
    have m: "64 - pl - pt \<le> 64" using w by simp
    have vb: "value_bits v pv (pl, pt) =
        [True] @ [False] @ msb_bits (nat (64 - pl - pt)) (drop_bit (nat pt) (v XOR pv))"
      using x True by (simp add: value_bits_def Let_def)
    have nb: "next_block v pv (pl, pt) = (pl, pt)"
      using True by (simp add: next_block_def Let_def)
    show ?thesis
      unfolding vb nb for_each_append for_each_single
      using x
      by (simp add: encode_value.simps yr sh WRITE_BITS_as_bits [OF m] Let_def
          split: option.splits Option.bind_splits)
  next
    case False
    let ?l = "clz64 (v XOR pv)" and ?t = "ctz64 (v XOR pv)"
    have nr: "(pl \<noteq> - 1 \<and> pl \<le> ?l \<and> pt \<le> ?t) = False"
      using False by (simp add: reuses_def)
    have sh: "shr64 (v XOR pv) ?t = Some (drop_bit (nat ?t) (v XOR pv))"
      using t by (simp add: shr64_def)
    have m: "64 - ?l - ?t \<le> 64" using c t by simp
    have six: "(6 :: int) \<le> 64" by simp
    have vb: "value_bits v pv (pl, pt) =
        [True] @ [True] @ msb_bits 6 (word_of_int ?l) @ msb_bits 6 (word_of_int (64 - ?l - ?t)) @
        msb_bits (nat (64 - ?l - ?t)) (drop_bit (nat ?t) (v XOR pv))"
      using x False by (simp add: value_bits_def Let_def)
    have nb: "next_block v pv (pl, pt) = (?l, ?t)"
      using x False by (simp add: next_block_def Let_def)
    show ?thesis
      unfolding vb nb for_each_append for_each_single
      using x
      by (simp add: encode_value.simps nr sh WRITE_BITS_as_bits [OF m] WRITE_BITS_as_bits [OF six] Let_def
          split: option.splits Option.bind_splits)
  qed
qed

lemma encode_loop_bits:
  assumes "block_ok d" "n \<le> length data"
  shows "map_option fst (for_each [i..<n] (encode_step data) (w, pv, d))
           = for_each (tail_bits (drop i (take n data)) pv d) WRITE_BIT w"
  using assms(1)
proof (induction "n - i" arbitrary: i w pv d)
  case 0
  then show ?case by simp
next
  case (Suc k)
  then have i: "i < n" by simp
  obtain pl pt where d: "d = (pl, pt)" by (cases d)
  have up: "[i..<n] = i # [Suc i..<n]" using i by (simp add: upt_conv_Cons)
  have dr: "drop i (take n data) = data ! i # drop (Suc i) (take n data)"
    using i assms(2) by (simp add: Cons_nth_drop_Suc [symmetric])
  have rd: "rd data i = Some (data ! i)" using i assms(2) by (simp add: rd_def)
  have step: "encode_step data i (w, pv, d) =
      (case for_each (value_bits (data ! i) pv d) WRITE_BIT w of
              None \<Rightarrow> None
            | Some w' \<Rightarrow> Some (w', data ! i, next_block (data ! i) pv d))"
    unfolding d using encode_value_bits [of pl pt "data ! i" w pv] Suc.prems [unfolded d]
    by (simp add: encode_step_def rd)
  have ih: "map_option fst (for_each [Suc i..<n] (encode_step data) (w', data ! i, next_block (data ! i) pv d))
           = for_each (tail_bits (drop (Suc i) (take n data)) (data ! i) (next_block (data ! i) pv d)) WRITE_BIT w'"
    for w'
    by (rule Suc.hyps(1)) (use Suc.hyps(2) block_ok_next [OF Suc.prems] in simp_all)
  show ?case
    unfolding up dr tail_bits.simps for_each_append for_each.simps step
    by (cases "for_each (value_bits (data ! i) pv d) WRITE_BIT w") (simp_all add: ih)
qed

lemma pad_bytes: "(if p mod 8 > 0 then p div 8 + 1 else p div 8) = (p + 7) div 8" for p :: nat
  by presburger

lemma compress_bits:
  assumes n: "0 < n" "n \<le> length data"
  shows "gorilla_compress_f64 data n buf =
           (case for_each (msb_bits 64 (data ! 0) @ tail_bits (drop 1 (take n data)) (data ! 0) (- 1, 0))
                   WRITE_BIT (buf, 0, 0) of
              None \<Rightarrow> None
            | Some (buf', byte_pos, bit_pos) \<Rightarrow> Some (if bit_pos > 0 then byte_pos + 1 else byte_pos, buf'))"
proof -
  have "data \<noteq> []" using n by auto
  then have rd: "rd data 0 = Some (data ! 0)" by (simp add: rd_def)
  have ok: "block_ok (- 1, 0)" by (simp add: block_ok_def)
  have loop: "map_option fst (for_each [1..<n] (encode_step data) (w, data ! 0, - 1, 0))
           = for_each (tail_bits (drop 1 (take n data)) (data ! 0) (- 1, 0)) WRITE_BIT w" for w
    by (rule encode_loop_bits [OF ok n(2)])
  have first: "WRITE_BITS (data ! 0) 64 (buf, 0, 0) = for_each (msb_bits 64 (data ! 0)) WRITE_BIT (buf, 0, 0)"
    using WRITE_BITS_as_bits [of 64 "data ! 0" "(buf, 0, 0)"] by simp
  show ?thesis
  proof (cases "for_each (msb_bits 64 (data ! 0)) WRITE_BIT (buf, 0, 0)")
    case None
    then show ?thesis using n(1) by (simp add: gorilla_compress_f64_def rd first for_each_append)
  next
    case (Some w)
    show ?thesis
    proof (cases "for_each [1..<n] (encode_step data) (w, data ! 0, - 1, 0)")
      case None
      with loop [of w] have "for_each (tail_bits (drop 1 (take n data)) (data ! 0) (- 1, 0)) WRITE_BIT w = None"
        by simp
      then show ?thesis using n(1) Some None
        by (simp add: gorilla_compress_f64_def rd first for_each_append)
    next
      case r: (Some s)
      obtain b bp bi pv pl pt where s: "s = ((b, bp, bi), pv, pl, pt)" by (cases s) auto
      with loop [of w] r have "for_each (tail_bits (drop 1 (take n data)) (data ! 0) (- 1, 0)) WRITE_BIT w = Some (b, bp, bi)"
        by simp
      then show ?thesis using n(1) Some r s
        by (simp add: gorilla_compress_f64_def rd first for_each_append)
    qed
  qed
qed

section \<open>The decoder reads \<open>value_bits\<close> back\<close>

lemma length_msb_bits: "length (msb_bits m v) = m"
  by (simp add: msb_bits_def)

lemma stream_append:
  assumes "\<forall>i<length (a @ b). sbit buffer (p + i) = (a @ b) ! i"
  shows "(\<forall>i<length a. sbit buffer (p + i) = a ! i) \<and>
         (\<forall>i<length b. sbit buffer (p + length a + i) = b ! i)"
proof (intro conjI allI impI)
  fix i assume "i < length a"
  then show "sbit buffer (p + i) = a ! i"
    using assms [rule_format, of i] by (simp add: nth_append)
next
  fix i assume "i < length b"
  then show "sbit buffer (p + length a + i) = b ! i"
    using assms [rule_format, of "length a + i"] by (simp add: nth_append add.assoc)
qed

lemma READ_BITS_msb:
  assumes "\<forall>i<m. sbit buffer (p + i) = msb_bits m v ! i"
    and "p + m \<le> 8 * l" "l \<le> length buffer" "bits = int m"
  shows "READ_BITS buffer l bits (cur_of p) = Got (take_bit m v, cur_of (p + m))"
  using READ_BITS_stream [OF assms(2,3,1)] assms(4) by simp

lemma READ_BIT_at:
  assumes "\<forall>i<length (b # bs). sbit buffer (p + i) = (b # bs) ! i"
    and "p + length (b # bs) \<le> 8 * l" "l \<le> length buffer"
  shows "READ_BIT buffer l (cur_of p) = Got (b, cur_of (Suc p))"
proof -
  have "p div 8 < l" using assms(2) by auto
  moreover have "sbit buffer p = b" using assms(1) [rule_format, of 0] by simp
  ultimately show ?thesis using READ_BIT_stream [of p l buffer] assms(3) by simp
qed

lemma stream_tl:
  assumes "\<forall>i<length (b # bs). sbit buffer (p + i) = (b # bs) ! i"
  shows "\<forall>i<length bs. sbit buffer (Suc p + i) = bs ! i"
  using stream_append [of "[b]" bs buffer p] assms by simp

lemma take_bit_6_of_int:
  assumes "0 \<le> k" "k \<le> 63"
  shows "uint (take_bit 6 (word_of_int k :: u64)) = k"
proof -
  have "k < 2 ^ 6" using assms by simp
  then have "take_bit 6 k = k" using assms(1) by (simp add: take_bit_int_eq_self)
  moreover have "take_bit 64 k = k"
    using assms by (intro take_bit_int_eq_self) simp_all
  ultimately show ?thesis
    by (simp add: unsigned_take_bit_eq uint_word_of_int_eq)
qed

lemma xor_back: "pv XOR (v XOR pv) = (v :: u64)"
  by (rule bit_word_eqI) (auto simp: bit_simps)

lemma xor_zero_eq: "(a :: u64) XOR b = 0 \<Longrightarrow> a = b"
proof -
  assume "a XOR b = 0"
  then have "(a XOR b) XOR b = 0 XOR b" by simp
  then show "a = b" by (simp add: xor.assoc)
qed

lemma decode_value_stream:
  assumes d: "block_ok (pl, pt)"
    and safe: "\<not> (bit (v XOR pv) 63 \<and> bit (v XOR pv) 0)"
    and bits: "\<forall>i<length (value_bits v pv (pl, pt)). sbit buffer (p + i) = value_bits v pv (pl, pt) ! i"
    and fit: "p + length (value_bits v pv (pl, pt)) \<le> 8 * l" "l \<le> length buffer"
  shows "decode_value buffer l (cur_of p, pv, pl, pt)
           = Got (cur_of (p + length (value_bits v pv (pl, pt))), v, next_block v pv (pl, pt))"
proof (cases "v XOR pv = 0")
  case True
  then have vb: "value_bits v pv (pl, pt) = [False]" and nb: "next_block v pv (pl, pt) = (pl, pt)"
    by (simp_all add: value_bits_def next_block_def)
  have v: "v = pv" by (rule xor_zero_eq [OF True])
  from READ_BIT_at [OF bits [unfolded vb] fit(1) [unfolded vb] fit(2)]
  show ?thesis unfolding vb nb using v by (simp add: decode_value.simps)
next
  case x: False
  let ?x = "v XOR pv"
  note c = clz64_props [OF x] and t = ctz64_props [OF x] and s = clz_ctz_sum [OF x]
  show ?thesis
  proof (cases "reuses ?x (pl, pt)")
    case True
    then have r: "pl \<noteq> - 1" "pl \<le> clz64 ?x" "pt \<le> ctz64 ?x"
      by (simp_all add: reuses_def)
    with d have w: "0 \<le> pl" "0 \<le> pt" "pl + pt \<le> 63" by (auto simp: block_ok_def)
    define m where "m = nat (64 - pl - pt)"
    define y where "y = drop_bit (nat pt) ?x"
    have vb: "value_bits v pv (pl, pt) = True # False # msb_bits m y"
      using x True by (simp add: value_bits_def Let_def m_def y_def)
    have nb: "next_block v pv (pl, pt) = (pl, pt)"
      using True by (simp add: next_block_def Let_def)
    note b0 = bits [unfolded vb] and f0 = fit(1) [unfolded vb]
    have r0: "READ_BIT buffer l (cur_of p) = Got (True, cur_of (Suc p))"
      by (rule READ_BIT_at [OF b0 f0 fit(2)])
    note b1 = stream_tl [OF b0]
    have f1: "Suc p + length (False # msb_bits m y) \<le> 8 * l" using f0 by simp
    have r1: "READ_BIT buffer l (cur_of (Suc p)) = Got (False, cur_of (Suc (Suc p)))"
      by (rule READ_BIT_at [OF b1 f1 fit(2)])
    note b2 = stream_tl [OF b1]
    have b2': "\<forall>i<m. sbit buffer (Suc (Suc p) + i) = msb_bits m y ! i"
      using b2 by (simp add: length_msb_bits)
    have f2: "Suc (Suc p) + m \<le> 8 * l" using f0 by (simp add: length_msb_bits)
    have mi: "64 - pl - pt = int m" using w by (simp add: m_def)
    have r2: "READ_BITS buffer l (64 - pl - pt) (cur_of (Suc (Suc p))) = Got (take_bit m y, cur_of (Suc (Suc p) + m))"
      by (rule READ_BITS_msb [OF b2' f2 fit(2) mi])
    have sh: "shl64 (take_bit m y) pt = Some ?x"
      using window_restore [OF x w(1,2) r(2,3)] w r t by (simp add: shl64_def m_def y_def)
    have len: "p + length (value_bits v pv (pl, pt)) = Suc (Suc p) + m"
      by (simp add: vb length_msb_bits)
    have "pv XOR ?x = v" by (rule xor_back)
    then show ?thesis
      unfolding len nb
      by (simp add: decode_value.simps r0 r1 r2 sh)
  next
    case False
    define lz where "lz = clz64 ?x"
    define tz where "tz = ctz64 ?x"
    define m where "m = nat (64 - lz - tz)"
    define y where "y = drop_bit (nat tz) ?x"
    have rng: "0 \<le> lz" "lz \<le> 63" "0 \<le> tz" "tz \<le> 63" "lz + tz \<le> 63"
      using c t s by (simp_all add: lz_def tz_def)
    have "\<not> (lz = 0 \<and> tz = 0)"
      using full_window_iff [OF x] safe by (simp add: lz_def tz_def)
    then have mrng: "1 \<le> 64 - lz - tz" "64 - lz - tz \<le> 63" using rng by linarith+
    have vb: "value_bits v pv (pl, pt) =
        True # True # msb_bits 6 (word_of_int lz) @ msb_bits 6 (word_of_int (64 - lz - tz)) @ msb_bits m y"
      using x False by (simp add: value_bits_def Let_def m_def y_def lz_def tz_def)
    have nb: "next_block v pv (pl, pt) = (lz, tz)"
      using x False by (simp add: next_block_def Let_def lz_def tz_def)
    note b0 = bits [unfolded vb] and f0 = fit(1) [unfolded vb]
    have r0: "READ_BIT buffer l (cur_of p) = Got (True, cur_of (Suc p))"
      by (rule READ_BIT_at [OF b0 f0 fit(2)])
    note b1 = stream_tl [OF b0]
    have f1: "Suc p + length (True # msb_bits 6 (word_of_int lz) @ msb_bits 6 (word_of_int (64 - lz - tz)) @ msb_bits m y) \<le> 8 * l"
      using f0 by simp
    have r1: "READ_BIT buffer l (cur_of (Suc p)) = Got (True, cur_of (Suc (Suc p)))"
      by (rule READ_BIT_at [OF b1 f1 fit(2)])
    note b2 = stream_tl [OF b1]
    note s2 = stream_append [OF b2]
    have b3: "\<forall>i<6. sbit buffer (Suc (Suc p) + i) = msb_bits 6 (word_of_int lz) ! i"
      using s2 by (simp add: length_msb_bits)
    have f3: "Suc (Suc p) + 6 \<le> 8 * l" using f0 by (simp add: length_msb_bits)
    have r3: "READ_BITS buffer l 6 (cur_of (Suc (Suc p))) = Got (take_bit 6 (word_of_int lz), cur_of (Suc (Suc p) + 6))"
      by (rule READ_BITS_msb [OF b3 f3 fit(2)]) simp
    have b4': "\<forall>i<length (msb_bits 6 (word_of_int (64 - lz - tz)) @ msb_bits m y).
        sbit buffer (Suc (Suc p) + 6 + i) = (msb_bits 6 (word_of_int (64 - lz - tz)) @ msb_bits m y) ! i"
      using s2 by (simp add: length_msb_bits)
    note s4 = stream_append [OF b4']
    have b4: "\<forall>i<6. sbit buffer (Suc (Suc p) + 6 + i) = msb_bits 6 (word_of_int (64 - lz - tz)) ! i"
      using s4 by (simp add: length_msb_bits)
    have f4: "Suc (Suc p) + 6 + 6 \<le> 8 * l" using f0 by (simp add: length_msb_bits)
    have r4: "READ_BITS buffer l 6 (cur_of (Suc (Suc p) + 6))
        = Got (take_bit 6 (word_of_int (64 - lz - tz)), cur_of (Suc (Suc p) + 6 + 6))"
      by (rule READ_BITS_msb [OF b4 f4 fit(2)]) simp
    have b5: "\<forall>i<m. sbit buffer (Suc (Suc p) + 6 + 6 + i) = msb_bits m y ! i"
      using s4 by (simp add: length_msb_bits)
    have f5: "Suc (Suc p) + 6 + 6 + m \<le> 8 * l" using f0 by (simp add: length_msb_bits)
    have ul: "uint (take_bit 6 (word_of_int lz :: u64)) = lz"
      by (rule take_bit_6_of_int) (use rng in simp_all)
    have um: "uint (take_bit 6 (word_of_int (64 - lz - tz) :: u64)) = 64 - lz - tz"
      by (rule take_bit_6_of_int) (use mrng in simp_all)
    have mi: "64 - lz - tz = int m" using mrng by (simp add: m_def)
    have r5: "READ_BITS buffer l (64 - lz - tz) (cur_of (Suc (Suc p) + 6 + 6))
        = Got (take_bit m y, cur_of (Suc (Suc p) + 6 + 6 + m))"
      by (rule READ_BITS_msb [OF b5 f5 fit(2) mi])
    have tzr: "64 - lz - (64 - lz - tz) = tz" by simp
    have wr: "push_bit (nat tz) (take_bit (nat (64 - lz - tz)) (drop_bit (nat tz) ?x)) = ?x"
      unfolding lz_def tz_def
      by (rule window_restore [OF x]) (use c t in simp_all)
    have sh: "shl64 (take_bit m y) tz = Some ?x"
      using wr rng by (simp add: shl64_def m_def y_def)
    have len: "p + length (value_bits v pv (pl, pt)) = Suc (Suc p) + 6 + 6 + m"
      by (simp add: vb length_msb_bits)
    have "pv XOR ?x = v" by (rule xor_back)
    then show ?thesis
      unfolding len nb
      by (simp only: decode_value.simps r0 r1 r3 r4 r5 ul um tzr sh then_read.simps prod.case
          Let_def if_True if_False not_True_eq_False not_False_eq_True option.case)
  qed
qed

section \<open>Round trip and size of the stream\<close>

lemma value_bits_length:
  assumes "block_ok d"
  shows "1 \<le> length (value_bits v pv d) \<and> length (value_bits v pv d) \<le> 78"
proof (cases "v XOR pv = 0")
  case True
  then show ?thesis by (simp add: value_bits_def)
next
  case x: False
  note c = clz64_props [OF x] and t = ctz64_props [OF x]
  show ?thesis
  proof (cases "reuses (v XOR pv) d")
    case True
    obtain pl pt where d: "d = (pl, pt)" by (cases d)
    from True assms have "0 \<le> pl" "0 \<le> pt" by (auto simp: d reuses_def block_ok_def)
    then have "nat (64 - pl - pt) \<le> 64" by linarith
    then show ?thesis
      using x True by (simp add: d value_bits_def Let_def length_msb_bits)
  next
    case False
    have "nat (64 - clz64 (v XOR pv) - ctz64 (v XOR pv)) \<le> 64" using c t by linarith
    then show ?thesis
      using x False by (simp add: value_bits_def Let_def length_msb_bits)
  qed
qed

lemma tail_bits_length:
  "block_ok d \<Longrightarrow> length (tail_bits vs pv d) \<le> 78 * length vs"
proof (induction vs arbitrary: pv d)
  case Nil
  then show ?case by simp
next
  case (Cons v vs)
  have "length (tail_bits vs v (next_block v pv d)) \<le> 78 * length vs"
    by (rule Cons.IH [OF block_ok_next [OF Cons.prems]])
  then show ?case using value_bits_length [OF Cons.prems, of v pv] by simp
qed

lemma decode_loop_stream:
  assumes "block_ok d" "no_full_window pv vs"
    and "\<forall>i<length (tail_bits vs pv d). sbit buffer (p + i) = tail_bits vs pv d ! i"
    and "p + length (tail_bits vs pv d) \<le> 8 * l" "l \<le> length buffer"
    and "count + length vs = m" "m \<le> length out"
  shows "decode_loop buffer l m (cur_of p, count, pv, fst d, snd d, out)
           = Some (m, take count out @ vs @ drop m out)"
  using assms
proof (induction vs arbitrary: p count pv d out)
  case Nil
  then show ?case by (subst decode_loop.simps) simp
next
  case (Cons v vs)
  obtain pl pt where d: "d = (pl, pt)" by (cases d)
  let ?vb = "value_bits v pv d"
  let ?d' = "next_block v pv d"
  have tb: "tail_bits (v # vs) pv d = ?vb @ tail_bits vs v ?d'" by simp
  note vl = value_bits_length [OF Cons.prems(1), of v pv]
  note sp = stream_append [OF Cons.prems(3) [unfolded tb]]
  have fit: "p + length ?vb \<le> 8 * l" using Cons.prems(4) by simp
  have safe: "\<not> (bit (v XOR pv) 63 \<and> bit (v XOR pv) 0)" and safe': "no_full_window v vs"
    using Cons.prems(2) by simp_all
  have dv: "decode_value buffer l (cur_of p, pv, pl, pt) = Got (cur_of (p + length ?vb), v, fst ?d', snd ?d')"
    using decode_value_stream [of pl pt v pv buffer p l] Cons.prems(1,5) safe sp fit
    by (simp add: d)
  have cm: "count < m" "count < length out" using Cons.prems(6,7) by simp_all
  have pl: "fst (cur_of p) < l" using fit vl by (auto simp: cur_of_def)
  have w: "wr out count v = Some (out[count := v])" using cm by (simp add: wr_def)
  have ih: "decode_loop buffer l m (cur_of (p + length ?vb), count + 1, v, fst ?d', snd ?d', out[count := v])
              = Some (m, take (count + 1) (out[count := v]) @ vs @ drop m (out[count := v]))"
  proof (rule Cons.IH [OF block_ok_next [OF Cons.prems(1)] safe'])
    show "\<forall>i<length (tail_bits vs v ?d'). sbit buffer (p + length ?vb + i) = tail_bits vs v ?d' ! i"
      using sp by simp
    show "p + length ?vb + length (tail_bits vs v ?d') \<le> 8 * l" using Cons.prems(4) by simp
    show "l \<le> length buffer" by (rule Cons.prems(5))
    show "count + 1 + length vs = m" using Cons.prems(6) by simp
    show "m \<le> length (out[count := v])" using Cons.prems(7) by simp
  qed
  have "take (count + 1) (out[count := v]) = take count out @ [v]"
    using cm by (simp add: take_Suc_conv_app_nth)
  moreover have "drop m (out[count := v]) = drop m out" using cm by simp
  ultimately have res: "take (count + 1) (out[count := v]) @ vs @ drop m (out[count := v])
      = take count out @ (v # vs) @ drop m out" by simp
  show ?case
    unfolding d fst_conv snd_conv
    by (subst decode_loop.simps) (use cm pl dv w ih res in \<open>simp add: d split_def\<close>)
qed

lemma compress_stream:
  assumes n: "0 < n" "n \<le> length data"
    and cap: "(64 + length (tail_bits (drop 1 (take n data)) (data ! 0) (- 1, 0)) + 7) div 8 \<le> length buf"
  shows "\<exists>buf'. gorilla_compress_f64 data n buf =
             Some ((64 + length (tail_bits (drop 1 (take n data)) (data ! 0) (- 1, 0)) + 7) div 8, buf') \<and>
           length buf' = length buf \<and>
           (\<forall>i<64. sbit buf' i = msb_bits 64 (data ! 0) ! i) \<and>
           (\<forall>i<length (tail_bits (drop 1 (take n data)) (data ! 0) (- 1, 0)).
               sbit buf' (64 + i) = tail_bits (drop 1 (take n data)) (data ! 0) (- 1, 0) ! i)"
proof -
  let ?tb = "tail_bits (drop 1 (take n data)) (data ! 0) (- 1, 0)"
  let ?bs = "msb_bits 64 (data ! 0) @ ?tb"
  let ?P = "64 + length ?tb"
  have lb: "length ?bs = ?P" by (simp add: length_msb_bits)
  have c0: "cur_of 0 = (0, 0)" by (simp add: cur_of_def)
  have tc: "tail_clear buf 0" by (simp add: tail_clear_def)
  have cap': "(0 + length ?bs + 7) div 8 \<le> length buf" using cap by (simp add: length_msb_bits)
  from write_bits_stream [OF cap' tc] obtain buf' where
    w: "for_each ?bs WRITE_BIT (buf, cur_of 0) = Some (buf', cur_of (0 + length ?bs))"
      "length buf' = length buf" "\<forall>i<length ?bs. sbit buf' (0 + i) = ?bs ! i" by blast
  have w': "for_each ?bs WRITE_BIT (buf, 0, 0) = Some (buf', ?P div 8, ?P mod 8)"
    using w(1) by (simp add: c0 length_msb_bits cur_of_def)
  note sp = stream_append [of "msb_bits 64 (data ! 0)" ?tb buf' 0]
  have s: "(\<forall>i<64. sbit buf' i = msb_bits 64 (data ! 0) ! i) \<and>
           (\<forall>i<length ?tb. sbit buf' (64 + i) = ?tb ! i)"
    using sp w(3) by (simp add: length_msb_bits)
  have "gorilla_compress_f64 data n buf = Some ((?P + 7) div 8, buf')"
    by (simp only: compress_bits [OF n] w' option.case prod.case pad_bytes)
  then show ?thesis using w(2) s by blast
qed

lemma stream_bytes:
  assumes "0 < (n::nat)" "t \<le> 78 * (n - 1)"
  shows "(64 + t + 7) div 8 \<le> 10 * n"
proof -
  have "64 + t + 7 \<le> 8 * (10 * n)" using assms by simp
  then have "(64 + t + 7) div 8 \<le> (8 * (10 * n)) div 8" by (rule div_le_mono)
  then show ?thesis by simp
qed

lemma tail_bits_bound:
  assumes "0 < n" "n \<le> length data"
  shows "length (tail_bits (drop 1 (take n data)) (data ! 0) (- 1, 0)) \<le> 78 * (n - 1)"
proof -
  have "block_ok (- 1, 0)" by (simp add: block_ok_def)
  from tail_bits_length [OF this, of "drop 1 (take n data)" "data ! 0"] assms
  show ?thesis by simp
qed

text \<open>
  With ten bytes per value the encoder never leaves its buffer, whatever the values
  are.
\<close>

lemma gorilla_compress_size:
  assumes "n \<le> length data" "10 * n \<le> length out_buffer"
  shows "\<exists>len buf. gorilla_compress_f64 data n out_buffer = Some (len, buf) \<and> len \<le> 10 * n \<and>
           length buf = length out_buffer"
proof (cases "n = 0")
  case True
  then show ?thesis by (simp add: gorilla_compress_f64_def)
next
  case False
  then have n: "0 < n" by simp
  let ?t = "length (tail_bits (drop 1 (take n data)) (data ! 0) (- 1, 0))"
  have b: "(64 + ?t + 7) div 8 \<le> 10 * n"
    by (rule stream_bytes [OF n tail_bits_bound [OF n assms(1)]])
  then have cap: "(64 + ?t + 7) div 8 \<le> length out_buffer" using assms(2) by simp
  from compress_stream [OF n assms(1) cap] b show ?thesis by blast
qed

text \<open>
  The round trip holds for every sequence free of full windows: the decoder returns
  the \<open>n\<close> values, bit for bit, and leaves the rest of \<^verbatim>\<open>out_data\<close> untouched.
\<close>

lemma gorilla_round_trip:
  assumes nd: "n \<le> length data"
    and safe: "no_full_window (data ! 0) (drop 1 (take n data))"
    and cap: "10 * n \<le> length out_buffer" and room: "n \<le> length out_data"
  shows "\<exists>len buf. gorilla_compress_f64 data n out_buffer = Some (len, buf) \<and> len \<le> 10 * n \<and>
           gorilla_decompress_f64 buf len out_data n = Some (n, take n data @ drop n out_data)"
proof (cases "n = 0")
  case True
  then show ?thesis by (simp add: gorilla_compress_f64_def gorilla_decompress_f64_def)
next
  case False
  then have n: "0 < n" by simp
  let ?v0 = "data ! 0"
  let ?vs = "drop 1 (take n data)"
  let ?tb = "tail_bits ?vs ?v0 (- 1, 0)"
  define len where "len = (64 + length ?tb + 7) div 8"
  have b: "len \<le> 10 * n"
    unfolding len_def by (rule stream_bytes [OF n tail_bits_bound [OF n nd]])
  then have cap': "(64 + length ?tb + 7) div 8 \<le> length out_buffer" using cap by (simp add: len_def)
  from compress_stream [OF n nd cap'] obtain buf where
    enc: "gorilla_compress_f64 data n out_buffer = Some (len, buf)"
    and lb: "length buf = length out_buffer"
    and first: "\<forall>i<64. sbit buf i = msb_bits 64 ?v0 ! i"
    and rest: "\<forall>i<length ?tb. sbit buf (64 + i) = ?tb ! i" unfolding len_def by blast
  have ll: "len \<le> length buf" using cap' lb by (simp add: len_def)
  have fit: "64 + length ?tb \<le> 8 * len" unfolding len_def by presburger
  have l8: "\<not> len < 8" using fit by simp
  have c0: "(0, 0) = cur_of 0" by (simp add: cur_of_def)
  have f64: "0 + 64 \<le> 8 * len" using fit by simp
  have first': "\<forall>i<64. sbit buf (0 + i) = msb_bits 64 ?v0 ! i" using first by simp
  have r: "READ_BITS buf len 64 (0, 0) = Got (?v0, cur_of 64)"
    unfolding c0 using READ_BITS_msb [OF first' f64 ll, of 64] by (simp add: take_bit_word_eq_self)
  have o0: "wr out_data 0 ?v0 = Some (out_data[0 := ?v0])"
    using n room by (cases out_data) (simp_all add: wr_def)
  have lv: "1 + length ?vs = n" using n nd by simp
  have loop: "decode_loop buf len n (cur_of 64, 1, ?v0, - 1, 0, out_data[0 := ?v0])
           = Some (n, take 1 (out_data[0 := ?v0]) @ ?vs @ drop n (out_data[0 := ?v0]))"
    using decode_loop_stream [where d = "(- 1, 0)" and p = 64 and count = 1, OF _ safe rest fit ll lv] room
    by (simp add: block_ok_def)
  have t1: "take 1 (out_data[0 := ?v0]) = [?v0]" using n room by (cases out_data) simp_all
  have t2: "[?v0] @ ?vs = take n data"
    using n nd by (cases data; cases n) simp_all
  have t3: "drop n (out_data[0 := ?v0]) = drop n out_data" using n by simp
  have res: "take 1 (out_data[0 := ?v0]) @ ?vs @ drop n (out_data[0 := ?v0])
      = take n data @ drop n out_data"
    unfolding t1 t3 using t2 by simp
  have "gorilla_decompress_f64 buf len out_data n = Some (n, take n data @ drop n out_data)"
    unfolding gorilla_decompress_f64_def
    by (simp only: l8 if_False r reading.case prod.case o0 option.case loop res)
  with enc b show ?thesis by blast
qed

text \<open>
  Hence for such a sequence every truncation of the stream decodes to a prefix of the
  sequence itself, the full decode of the stream.
\<close>

lemma gorilla_truncated_prefix:
  assumes nd: "n \<le> length data"
    and safe: "no_full_window (data ! 0) (drop 1 (take n data))"
    and cap: "10 * n \<le> length out_buffer" and room: "n \<le> length out_data"
    and enc: "gorilla_compress_f64 data n out_buffer = Some (len, buf)" and k: "k \<le> len"
  shows "\<exists>c out. gorilla_decompress_f64 (take k buf) k out_data n = Some (c, out) \<and> c \<le> n \<and>
           take c out = take c data \<and> drop c out = drop c out_data"
proof -
  from gorilla_round_trip [OF nd safe cap room] enc
  have full: "gorilla_decompress_f64 buf len out_data n = Some (n, take n data @ drop n out_data)"
    by auto
  from gorilla_decompress_prefix [OF full k] obtain c out where
    c: "gorilla_decompress_f64 (take k buf) k out_data n = Some (c, out)" "c \<le> n"
      "take c out = take c (take n data @ drop n out_data)" "drop c out = drop c out_data" by blast
  have "take c (take n data @ drop n out_data) = take c data" using c(2) nd by (simp add: min_def)
  with c show ?thesis by auto
qed

end
